theory Spec2Isabelle
  imports Main
begin

section \<open>The carousel: data model\<close>

text \<open>
  The repository holds two variants of the class \<open>Carousel\<close> and the auto mover:
  \<^item> \<open>src/js/Carousel/index.js\<close>: the windowed carousel with lifecycle events. Its
    methods keep their names here (\<open>setCur\<close>, \<open>setNext\<close>, \<open>move\<close>, \<open>goto\<close>, ...);
    \<open>back\<close> is written \<open>back_op\<close>, and the field \<open>max\<close> is written \<open>cmax\<close>, since Isabelle
    reserves the two names.
  \<^item> \<open>src/js/carousel.js\<close>: the single-slide carousel with pointer gestures. Its
    methods carry the suffix \<open>_c\<close> (\<open>setNext_c\<close>, \<open>move_c\<close>, \<open>goto_c\<close>, ...); \<open>setCur\<close> is the
    same text in both files and is embedded once.
  \<^item> \<open>CarouselAutoMove\<close>: the timer that commits a step through \<open>Carousel.move\<close>.

  Both variants keep their state in fields of the object and in custom properties and
  classes of the wrapper element; one record holds all of it. Numbers read back through
  \<open>parseInt\<close> from a property that may be unset are \<open>int option\<close> (\<open>None\<close> is \<open>NaN\<close>).
  Reading \<open>slides[i]\<close> outside \<open>0..max\<close> gives \<open>undefined\<close>, and the property access on it
  throws a \<open>TypeError\<close>: every function that dereferences a slide returns
  \<open>error + carousel\<close>. Class names and inline styles written to the slides are output
  for the renderer and are never read back after construction, with one exception that is
  modelled: \<open>style.transform\<close>, which \<open>pointerUp\<close> reads.

  Callbacks handed to the browser (\<open>addEventListener("transitionend", ..., {once: true})\<close>,
  \<open>requestAnimationFrame\<close>, \<open>setTimeout\<close>) are data: the state holds the registered
  listeners, the queued frame callbacks and the pending timers, and the browser's side is
  the three functions \<open>transitionend\<close>, \<open>frame\<close> and \<open>timeout\<close>.
\<close>

datatype error = TypeError

datatype evkind = Ev_before | Ev_start | Ev_end | Ev_change

record SliderEventData =
  ev_prev :: int
  ev_cur :: int
  ev_next :: int
  ev_dir :: "int option"
  offset :: int
  transitionDuration :: "int option"
  transitionTimingFunction :: string
  transitionProperty :: string

text \<open>The once-only \<open>transitionend\<close> listeners the code registers on a slide.\<close>

datatype listener =
    GotoNext int      \<comment> \<open>index.js: \<open>() => requestAnimationFrame(() => this.moveRecursive(n))\<close>\<close>
  | GotoRestore       \<comment> \<open>index.js: \<open>() => { this.timingFunction = this.defaultTimingFunction }\<close>\<close>
  | MovingEnd         \<comment> \<open>index.js: the listener of \<open>set moving(true)\<close>\<close>
  | GotoNext_c int    \<comment> \<open>carousel.js: the same two closures of its \<open>moveRecursive\<close>\<close>
  | GotoRestore_c

text \<open>The callbacks passed to \<open>requestAnimationFrame\<close>.\<close>

datatype frame_cb =
    MoveRecursive int   \<comment> \<open>\<open>() => this.moveRecursive(n)\<close>\<close>
  | MoveOuter           \<comment> \<open>\<open>move\<close>, \<open>max === 1\<close>: the outer callback\<close>
  | MoveInner           \<comment> \<open>\<open>move\<close>, \<open>max === 1\<close>: the inner callback\<close>
  | ResetOuter          \<comment> \<open>\<open>set moving\<close>, \<open>max === 1\<close>: the outer callback\<close>
  | ResetInner          \<comment> \<open>\<open>set moving\<close>, \<open>max === 1\<close>: the inner callback, which calls \<open>reset\<close>\<close>
  | MoveRecursive_c int \<comment> \<open>carousel.js: \<open>() => this.moveRecursive(n)\<close>\<close>

text \<open>
  The values \<open>style.transform\<close> of a slide takes: the empty string, \<open>translateX(<px>px)\<close>
  and \<open>translateX(calc(<offset>% + (<px>px)))\<close>.
\<close>

datatype transform = NoTransform | TranslateX int | TranslateCalc int int

record carousel =
  cmax :: int
  visible :: int
  prev :: int
  cur :: int
  "next" :: int
  dir :: "int option"
  duration :: "int option"
  defaultDuration :: "int option"
  timingFunction :: string
  defaultTimingFunction :: string
  moving :: bool
  transition :: bool
  pointerStart :: "int option"
  slideTransform :: "int \<Rightarrow> transform"
  listeners :: "(int \<times> listener) list"
  frames :: "frame_cb list"
  events :: "(evkind \<times> SliderEventData) list"
  autoMove :: bool
  autoSlideInterval :: "nat option"
  hover :: bool
  timers :: "(nat \<times> int) list"
  timerSeq :: nat
  autoInterval :: "int option"
  autoDuration :: "int option"
  autoTimingFunction :: "string option"
  autoOnHover :: "string option"
  autoDir :: "string option"

text \<open>
  \<open>pointerStart\<close> is \<open>null\<close> or the \<open>pageX\<close> of the pointer-down; \<open>autoMove\<close> says that a
  \<open>CarouselAutoMove\<close> has registered its listeners on the element; \<open>autoSlideInterval\<close> is its
  field \<open>_autoSlideInterval\<close> (a timer handle or undefined); \<open>timers\<close> are the browser's pending
  timeouts (handle and delay) and \<open>timerSeq\<close> the next handle \<open>setTimeout\<close> returns. The last
  five fields are the \<open>data-auto-*\<close> attributes as the getters read them: a number is the
  result of \<open>parseInt\<close> (\<open>None\<close> when the attribute is absent or not a number), a string is
  \<open>None\<close> when the attribute is absent.
\<close>

definition DIRECTIONS_back :: int where
  "DIRECTIONS_back = - 1"

definition DIRECTIONS_fwd :: int where
  "DIRECTIONS_fwd = 1"

definition DEFAULT_TIMING_FUNCTION :: string where
  "DEFAULT_TIMING_FUNCTION = ''ease-in-out''"

text \<open>\<open>slides[i]\<close> is an element exactly for \<open>0 \<le> i \<le> max\<close> (\<open>max = slides.length - 1\<close>).\<close>

definition slides_ok :: "carousel \<Rightarrow> int \<Rightarrow> bool" where
  "slides_ok s i \<longleftrightarrow> 0 \<le> i \<and> i \<le> cmax s"

text \<open>JavaScript truthiness of an optional attribute string.\<close>

definition truthy :: "string option \<Rightarrow> bool" where
  "truthy v = (case v of None \<Rightarrow> False | Some x \<Rightarrow> x \<noteq> [])"

text \<open>Sequencing of two steps that may throw: \<open>this.f().g()\<close>.\<close>

definition and_then :: "('a \<Rightarrow> error + 'b) \<Rightarrow> ('b \<Rightarrow> error + 'c) \<Rightarrow> 'a \<Rightarrow> error + 'c" where
  "and_then f g s = (case f s of Inl e \<Rightarrow> Inl e | Inr s' \<Rightarrow> g s')"

section \<open>CarouselAutoMove: the timer\<close>

definition interval :: "carousel \<Rightarrow> int" where
  "interval s = (case autoInterval s of None \<Rightarrow> 5000 | Some i \<Rightarrow> if i > 0 then i else 5000)"

definition auto_duration :: "carousel \<Rightarrow> int" where
  "auto_duration s = (case autoDuration s of None \<Rightarrow> 1000 | Some d \<Rightarrow> if d > 0 then d else 1000)"

definition auto_timingFunction :: "carousel \<Rightarrow> string" where
  "auto_timingFunction s =
     (case autoTimingFunction s of None \<Rightarrow> ''ease-in-out''
      | Some f \<Rightarrow> if f \<noteq> [] then f else ''ease-in-out'')"

text \<open>\<open>stop\<close>: \<open>clearTimeout\<close> of the stored handle, then \<open>delete this._autoSlideInterval\<close>.\<close>

definition stop :: "carousel \<Rightarrow> carousel" where
  "stop s =
     (case autoSlideInterval s of
        None \<Rightarrow> s
      | Some h \<Rightarrow> s\<lparr>timers := filter (\<lambda>t. fst t \<noteq> h) (timers s), autoSlideInterval := None\<rparr>)"

text \<open>
  \<open>start\<close>: the guard \<open>this.interval && !this.carousel.moving\<close> (a number is truthy when
  it is not 0), \<open>stop\<close>, then \<open>setTimeout\<close> with the interval as delay.
\<close>

definition start :: "carousel \<Rightarrow> carousel" where
  "start s =
     (if interval s \<noteq> 0 \<and> \<not> moving s then
        (let s1 = stop s; h = timerSeq s1
         in s1\<lparr>timers := timers s1 @ [(h, interval s1)], timerSeq := Suc h,
               autoSlideInterval := Some h\<rparr>)
      else s)"

text \<open>
  The two listeners \<open>initListeners\<close> registers on the carousel's element, in force once a
  \<open>CarouselAutoMove\<close> is attached: \<open>this.stop.bind(this)\<close> for \<open>slider-transitionbefore\<close>, and
  \<open>(!this._hover || this.carousel.el.dataset.autoOnHover) && this.start()\<close> for
  \<open>slider-transitionend\<close>.
\<close>

definition on_transitionbefore :: "carousel \<Rightarrow> carousel" where
  "on_transitionbefore s = (if autoMove s then stop s else s)"

definition on_transitionend :: "carousel \<Rightarrow> carousel" where
  "on_transitionend s =
     (if autoMove s then
        (if hover s then (if truthy (autoOnHover s) then start s else s) else start s)
      else s)"

definition pointerEnter :: "carousel \<Rightarrow> carousel" where
  "pointerEnter s =
     (let s1 = s\<lparr>hover := True\<rparr> in if truthy (autoOnHover s1) then s1 else stop s1)"

definition pointerLeave :: "carousel \<Rightarrow> carousel" where
  "pointerLeave s =
     (let s1 = (if truthy (autoOnHover s) then s else start s) in s1\<lparr>hover := False\<rparr>)"

section \<open>Carousel/index.js\<close>

subsection \<open>Events and property setters\<close>

definition eventData :: "carousel \<Rightarrow> SliderEventData" where
  "eventData s =
     \<lparr>ev_prev = prev s, ev_cur = cur s, ev_next = next s, ev_dir = dir s, offset = 0,
      transitionDuration = duration s, transitionTimingFunction = timingFunction s,
      transitionProperty = (if transition s then '''' else ''none'')\<rparr>"

definition emit :: "evkind \<Rightarrow> carousel \<Rightarrow> carousel" where
  "emit k s = s\<lparr>events := events s @ [(k, eventData s)]\<rparr>"

definition dispatchTransitionChange :: "carousel \<Rightarrow> carousel" where
  "dispatchTransitionChange s = emit Ev_change s"

text \<open>\<open>dispatchEvent\<close> runs the listeners of the event at once.\<close>

definition dispatchTransitionBefore :: "carousel \<Rightarrow> carousel" where
  "dispatchTransitionBefore s = on_transitionbefore (emit Ev_before s)"

definition dispatchTransitionStart :: "carousel \<Rightarrow> carousel" where
  "dispatchTransitionStart s = emit Ev_start s"

definition dispatchTransitionEnd :: "carousel \<Rightarrow> carousel" where
  "dispatchTransitionEnd s = on_transitionend (emit Ev_end s)"

text \<open>
  The duration lives in the custom property \<open>--duration\<close> as the text \<open>`${d}ms`\<close>, and
  the getter reads it back with \<open>parseInt\<close>. A number below \<open>10^21\<close> is written with its
  decimal digits and reads back as itself. From \<open>10^21\<close> on it is written in exponent
  notation (\<open>1.5e+21\<close>), of which \<open>parseInt\<close> reads the sign and the one digit before the
  point: the leading digit, for a number given with up to fifteen significant digits.
  \<open>NaN\<close> (\<open>None\<close>) is written \<open>NaNms\<close> and reads back as \<open>NaN\<close>.
\<close>

fun leading_digit :: "nat \<Rightarrow> nat" where
  "leading_digit n = (if n < 10 then n else leading_digit (n div 10))"

definition parseInt_ms :: "int option \<Rightarrow> int option" where
  "parseInt_ms d =
     (case d of
        None \<Rightarrow> None
      | Some v \<Rightarrow> Some (if \<bar>v\<bar> < 10 ^ 21 then v
                        else sgn v * int (leading_digit (nat \<bar>v\<bar>))))"

definition set_duration :: "int option \<Rightarrow> carousel \<Rightarrow> carousel" where
  "set_duration d s = dispatchTransitionChange (s\<lparr>duration := parseInt_ms d\<rparr>)"

definition set_timingFunction :: "string \<Rightarrow> carousel \<Rightarrow> carousel" where
  "set_timingFunction fn s = dispatchTransitionChange (s\<lparr>timingFunction := fn\<rparr>)"

definition set_transition :: "bool \<Rightarrow> carousel \<Rightarrow> carousel" where
  "set_transition t s = dispatchTransitionChange (s\<lparr>transition := t\<rparr>)"

definition addEventListener :: "int \<Rightarrow> listener \<Rightarrow> carousel \<Rightarrow> error + carousel" where
  "addEventListener i l s =
     (if slides_ok s i then Inr (s\<lparr>listeners := listeners s @ [(i, l)]\<rparr>) else Inl TypeError)"

definition requestAnimationFrame :: "frame_cb \<Rightarrow> carousel \<Rightarrow> carousel" where
  "requestAnimationFrame f s = s\<lparr>frames := frames s @ [f]\<rparr>"

text \<open>
  \<open>set moving(m)\<close>: for a true \<open>m\<close> the listener goes on \<open>slides[this.cur]\<close> first, then the
  class is toggled.
\<close>

definition set_moving :: "bool \<Rightarrow> carousel \<Rightarrow> error + carousel" where
  "set_moving m s =
     (if m then
        (case addEventListener (cur s) MovingEnd s of
           Inl e \<Rightarrow> Inl e
         | Inr s1 \<Rightarrow> Inr (s1\<lparr>moving := True\<rparr>))
      else Inr (s\<lparr>moving := False\<rparr>))"

definition reset :: "carousel \<Rightarrow> carousel" where
  "reset s =
     (let s1 = set_duration (defaultDuration s) s;
          s2 = set_timingFunction (defaultTimingFunction s1) s1
      in dispatchTransitionEnd (s2\<lparr>moving := False\<rparr>))"

subsection \<open>The ring arithmetic\<close>

definition setCur :: "carousel \<Rightarrow> error + carousel" where
  "setCur s =
     (if \<not> slides_ok s (cur s) then Inl TypeError
      else
        (let c = (if dir s = Some DIRECTIONS_fwd
                  then (if cur s + 1 > cmax s then 0 else cur s + 1)
                  else (if cur s - 1 < 0 then cmax s else cur s - 1))
         in if slides_ok s c then Inr (s\<lparr>cur := c\<rparr>) else Inl TypeError))"

text \<open>
  \<open>setVis\<close> only writes classes and styles, on the slides \<open>vis\<close> for \<open>i = 1, ..., visible - 1\<close>;
  it throws when one of them is no slide.
\<close>

definition visIndex :: "carousel \<Rightarrow> int \<Rightarrow> int" where
  "visIndex s i = (if cur s + i > cmax s then cur s + i - 1 - cmax s else cur s + i)"

definition setVis :: "carousel \<Rightarrow> error + carousel" where
  "setVis s =
     (if list_all (\<lambda>i. slides_ok s (visIndex s i)) [1..visible s - 1] then Inr s
      else Inl TypeError)"

definition ahead :: "carousel \<Rightarrow> int" where
  "ahead s =
     (if cur s + visible s > cmax s then cur s + visible s - 1 - cmax s else cur s + visible s)"

definition behind :: "carousel \<Rightarrow> int" where
  "behind s = (if cur s - 1 < 0 then cmax s else cur s - 1)"

text \<open>
  \<open>ahead\<close> and \<open>behind\<close> name the two expressions that \<open>setNext\<close> and \<open>setPrev\<close> both
  contain, each in the opposite branch.
\<close>

definition setNext :: "carousel \<Rightarrow> error + carousel" where
  "setNext s =
     (if \<not> slides_ok s (next s) then Inl TypeError
      else
        (let n = (if dir s = Some DIRECTIONS_fwd then ahead s else behind s)
         in if slides_ok s n then Inr (s\<lparr>next := n\<rparr>) else Inl TypeError))"

definition setPrev :: "carousel \<Rightarrow> error + carousel" where
  "setPrev s =
     (if \<not> slides_ok s (prev s) then Inl TypeError
      else
        (let p = (if dir s = Some DIRECTIONS_fwd then behind s else ahead s)
         in if slides_ok s p then Inr (s\<lparr>prev := p\<rparr>) else Inl TypeError))"

subsection \<open>Steps\<close>

definition move :: "carousel \<Rightarrow> error + carousel" where
  "move s =
     (case set_moving True (dispatchTransitionBefore s) of
        Inl e \<Rightarrow> Inl e
      | Inr s1 \<Rightarrow>
          if cmax s1 = 1 then Inr (requestAnimationFrame MoveOuter (set_transition False s1))
          else
            (case and_then setCur (and_then setVis (and_then setNext setPrev)) s1 of
               Inl e \<Rightarrow> Inl e
             | Inr s2 \<Rightarrow> Inr (dispatchTransitionStart s2)))"

definition back_op :: "carousel \<Rightarrow> error + carousel" where
  "back_op s =
     (if moving s \<or> cmax s = 0 then Inr s else move (s\<lparr>dir := Some DIRECTIONS_back\<rparr>))"

definition fwd :: "carousel \<Rightarrow> error + carousel" where
  "fwd s =
     (if moving s \<or> cmax s = 0 then Inr s else move (s\<lparr>dir := Some DIRECTIONS_fwd\<rparr>))"

definition moveRecursive :: "int \<Rightarrow> carousel \<Rightarrow> error + carousel" where
  "moveRecursive n s =
     (let nxt = (if dir s = Some DIRECTIONS_fwd then cur s + 1 else cur s - 1);
          s1 = set_timingFunction ''linear'' (set_duration (Some 60) s)
      in if nxt \<noteq> n then
           (case addEventListener (cur s1) (GotoNext n) s1 of
              Inl e \<Rightarrow> Inl e
            | Inr s2 \<Rightarrow> move s2)
         else
           (case addEventListener (cur s1) GotoRestore s1 of
              Inl e \<Rightarrow> Inl e
            | Inr s2 \<Rightarrow>
                move (set_duration (defaultDuration s2) (set_timingFunction ''ease-out'' s2))))"

definition goto :: "int \<Rightarrow> carousel \<Rightarrow> error + carousel" where
  "goto n s =
     (if moving s \<or> cmax s = 0 then Inr s
      else if n < 0 \<or> n > cmax s then Inr s
      else if n \<noteq> cur s then
        moveRecursive n
          (s\<lparr>dir := Some (if n > cur s then DIRECTIONS_fwd else DIRECTIONS_back)\<rparr>)
      else Inr s)"

section \<open>carousel.js\<close>

text \<open>
  The setters of this variant store the value and dispatch nothing (the duration goes
  through \<open>`${parseInt(d, 10)}ms`\<close> and is read back with \<open>parseInt\<close>, as above); \<open>move\<close>
  neither dispatches an event nor sets \<open>moving\<close>.
\<close>

definition setNext_c :: "carousel \<Rightarrow> error + carousel" where
  "setNext_c s =
     (if \<not> slides_ok s (next s) then Inl TypeError
      else
        (let n = (if dir s = Some DIRECTIONS_fwd
                  then (if cur s + 1 > cmax s then 0 else cur s + 1)
                  else (if cur s - 1 < 0 then cmax s else cur s - 1))
         in if slides_ok s n then Inr (s\<lparr>next := n\<rparr>) else Inl TypeError))"

definition setPrev_c :: "carousel \<Rightarrow> error + carousel" where
  "setPrev_c s =
     (if \<not> slides_ok s (prev s) then Inl TypeError
      else
        (let p = (if dir s = Some DIRECTIONS_fwd
                  then (if cur s - 1 < 0 then cmax s else cur s - 1)
                  else (if cur s + 1 > cmax s then 0 else cur s + 1))
         in if slides_ok s p then Inr (s\<lparr>prev := p\<rparr>) else Inl TypeError))"

definition move_c :: "carousel \<Rightarrow> error + carousel" where
  "move_c s = and_then setCur (and_then setNext_c setPrev_c) s"

definition back_c :: "carousel \<Rightarrow> error + carousel" where
  "back_c s = (if moving s then Inr s else move_c (s\<lparr>dir := Some DIRECTIONS_back\<rparr>))"

definition fwd_c :: "carousel \<Rightarrow> error + carousel" where
  "fwd_c s = (if moving s then Inr s else move_c (s\<lparr>dir := Some DIRECTIONS_fwd\<rparr>))"

definition moveRecursive_c :: "int \<Rightarrow> carousel \<Rightarrow> error + carousel" where
  "moveRecursive_c n s =
     (let nxt = (if dir s = Some DIRECTIONS_fwd then cur s + 1 else cur s - 1)
      in if nxt \<noteq> n then
           (case addEventListener (cur s) (GotoNext_c n) s of
              Inl e \<Rightarrow> Inl e
            | Inr s1 \<Rightarrow> move_c s1)
         else
           (case addEventListener (cur s) GotoRestore_c s of
              Inl e \<Rightarrow> Inl e
            | Inr s1 \<Rightarrow>
                move_c (s1\<lparr>timingFunction := ''ease-out'',
                           duration := parseInt_ms (defaultDuration s1)\<rparr>)))"

definition goto_c :: "int \<Rightarrow> carousel \<Rightarrow> error + carousel" where
  "goto_c n s =
     (if n \<noteq> cur s then
        moveRecursive_c n
          (s\<lparr>dir := Some (if n > cur s then DIRECTIONS_fwd else DIRECTIONS_back),
             duration := parseInt_ms (Some 60), timingFunction := ''linear''\<rparr>)
      else Inr s)"

subsection \<open>Pointer gestures\<close>

definition pointerDown :: "int \<Rightarrow> carousel \<Rightarrow> carousel" where
  "pointerDown pageX s = s\<lparr>pointerStart := Some pageX, transition := False\<rparr>"

definition setTransform :: "int \<Rightarrow> transform \<Rightarrow> carousel \<Rightarrow> error + carousel" where
  "setTransform i v s =
     (if slides_ok s i then Inr (s\<lparr>slideTransform := (slideTransform s)(i := v)\<rparr>)
      else Inl TypeError)"

definition pxOffset :: "int \<Rightarrow> carousel \<Rightarrow> error + carousel" where
  "pxOffset px s =
     (let offsetPrev = (if dir s = Some DIRECTIONS_fwd then - 100 else 100);
          offsetNext = (if dir s = Some DIRECTIONS_fwd then 100 else - 100)
      in and_then (\<lambda>s. setTransform (prev s) (TranslateCalc offsetPrev px) s)
           (and_then (\<lambda>s. setTransform (cur s) (TranslateX px) s)
              (\<lambda>s. setTransform (next s) (TranslateCalc offsetNext px) s)) s)"

text \<open>\<open>if (this.pointerStart)\<close> is false for \<open>null\<close> and for the number 0.\<close>

definition pointerMove :: "int \<Rightarrow> carousel \<Rightarrow> error + carousel" where
  "pointerMove pageX s =
     (case pointerStart s of
        None \<Rightarrow> Inr s
      | Some p \<Rightarrow>
          if p = 0 then Inr s
          else
            (let delta = pageX - p
             in if \<bar>delta\<bar> > 0 then
                  and_then setPrev_c (and_then setNext_c (pxOffset delta))
                    (s\<lparr>dir := Some (if delta > 0 then DIRECTIONS_back else DIRECTIONS_fwd)\<rparr>)
                else Inr s))"

text \<open>In \<open>e.pageX - this.pointerStart\<close> a \<open>null\<close> start counts as 0.\<close>

definition pointerUp :: "int \<Rightarrow> carousel \<Rightarrow> error + carousel" where
  "pointerUp pageX s =
     (let s1 = s\<lparr>transition := True\<rparr>
      in if \<not> slides_ok s1 (cur s1) then Inl TypeError
         else if slideTransform s1 (cur s1) \<noteq> NoTransform then
           (case and_then (\<lambda>s. setTransform (prev s) NoTransform s)
                   (and_then (\<lambda>s. setTransform (cur s) NoTransform s)
                      (\<lambda>s. setTransform (next s) NoTransform s)) s1 of
              Inl e \<Rightarrow> Inl e
            | Inr s2 \<Rightarrow>
                (case (if pageX - (case pointerStart s2 of None \<Rightarrow> 0 | Some p \<Rightarrow> p) > 0
                       then back_c s2 else fwd_c s2) of
                   Inl e \<Rightarrow> Inl e
                 | Inr s3 \<Rightarrow> Inr (s3\<lparr>pointerStart := None\<rparr>)))
         else Inr (s1\<lparr>pointerStart := None\<rparr>))"

section \<open>The browser's side\<close>

text \<open>
  \<open>transitionend i\<close>: the transition of slide \<open>i\<close> has finished. Its once-only listeners are
  removed and run in the order of their registration. None of them dereferences a slide.
\<close>

definition runListener :: "listener \<Rightarrow> carousel \<Rightarrow> carousel" where
  "runListener l s =
     (case l of
        GotoNext n \<Rightarrow> requestAnimationFrame (MoveRecursive n) s
      | GotoRestore \<Rightarrow> set_timingFunction (defaultTimingFunction s) s
      | MovingEnd \<Rightarrow>
          if cmax s = 1 then requestAnimationFrame ResetOuter (set_transition False s)
          else reset s
      | GotoNext_c n \<Rightarrow> requestAnimationFrame (MoveRecursive_c n) s
      | GotoRestore_c \<Rightarrow> s\<lparr>timingFunction := defaultTimingFunction s\<rparr>)"

definition transitionend :: "int \<Rightarrow> carousel \<Rightarrow> carousel" where
  "transitionend i s =
     fold runListener (map snd (filter (\<lambda>l. fst l = i) (listeners s)))
       (s\<lparr>listeners := filter (\<lambda>l. fst l \<noteq> i) (listeners s)\<rparr>)"

text \<open>\<open>frame\<close>: the next animation frame runs the oldest queued callback.\<close>

definition runFrame :: "frame_cb \<Rightarrow> carousel \<Rightarrow> error + carousel" where
  "runFrame f s =
     (case f of
        MoveRecursive n \<Rightarrow> moveRecursive n s
      | MoveOuter \<Rightarrow>
          if slides_ok s (prev s) then Inr (requestAnimationFrame MoveInner s)
          else Inl TypeError
      | MoveInner \<Rightarrow>
          (case and_then setCur (and_then setNext setPrev) (set_transition True s) of
             Inl e \<Rightarrow> Inl e
           | Inr s1 \<Rightarrow> Inr (dispatchTransitionStart s1))
      | ResetOuter \<Rightarrow>
          if slides_ok s (prev s) then Inr (requestAnimationFrame ResetInner s)
          else Inl TypeError
      | ResetInner \<Rightarrow> Inr (reset (set_transition True s))
      | MoveRecursive_c n \<Rightarrow> moveRecursive_c n s)"

definition frame :: "carousel \<Rightarrow> error + carousel" where
  "frame s = (case frames s of [] \<Rightarrow> Inr s | f # fs \<Rightarrow> runFrame f (s\<lparr>frames := fs\<rparr>))"

text \<open>
  \<open>timeout h\<close>: the timer with handle \<open>h\<close> expires. A cleared timer never fires. The callback
  is the one \<open>CarouselAutoMove.start\<close> passes to \<open>setTimeout\<close>.
\<close>

definition timeout :: "nat \<Rightarrow> carousel \<Rightarrow> error + carousel" where
  "timeout h s =
     (if h \<in> set (map fst (timers s)) then
        (let s1 = s\<lparr>timers := filter (\<lambda>t. fst t \<noteq> h) (timers s)\<rparr>
         in if \<not> moving s1 then
              (let s2 = set_duration (Some (auto_duration s1)) s1;
                   s3 = set_timingFunction (auto_timingFunction s2) s2
               in move (s3\<lparr>dir := Some (if autoDir s3 = Some ''back''
                                          then DIRECTIONS_back else DIRECTIONS_fwd)\<rparr>))
            else Inr s1)
      else Inr s)"

text \<open>
  Awaiting a step: the browser delivers what is pending, queued frame callbacks first, then
  the \<open>transitionend\<close> of the slide that carries the oldest listener, until nothing is
  pending. \<open>settle k\<close> delivers at most \<open>k\<close> such events; \<open>None\<close> says that something was
  still pending after \<open>k\<close> of them.
\<close>

fun settle :: "nat \<Rightarrow> carousel \<Rightarrow> (error + carousel) option" where
  "settle 0 s = (if frames s = [] \<and> listeners s = [] then Some (Inr s) else None)"
| "settle (Suc k) s =
     (if frames s \<noteq> [] then
        (case frame s of Inl e \<Rightarrow> Some (Inl e) | Inr s' \<Rightarrow> settle k s')
      else
        (case listeners s of
           [] \<Rightarrow> Some (Inr s)
         | l # ls \<Rightarrow> settle k (transitionend (fst l) s)))"

text \<open>A sequence of \<open>fwd()\<close> and \<open>back()\<close> calls, each awaited before the next.\<close>

datatype call = Fwd | Back

fun run_calls :: "nat \<Rightarrow> call list \<Rightarrow> carousel \<Rightarrow> (error + carousel) option" where
  "run_calls k [] s = Some (Inr s)"
| "run_calls k (c # cs) s =
     (case (case c of Fwd \<Rightarrow> fwd s | Back \<Rightarrow> back_op s) of
        Inl e \<Rightarrow> Some (Inl e)
      | Inr s1 \<Rightarrow>
          (case settle k s1 of
             None \<Rightarrow> None
           | Some (Inl e) \<Rightarrow> Some (Inl e)
           | Some (Inr s2) \<Rightarrow> run_calls k cs s2))"

section \<open>Construction\<close>

text \<open>
  What the constructors read of the wrapper element: the class names of each slide, the
  \<open>data-*\<close> attributes (numbers as \<open>parseInt\<close> reads them, \<open>None\<close> for an absent attribute),
  whether the element carries the class \<open>moving\<close>, and \<open>css_keeps\<close>: the timing functions
  that the style engine accepts and gives back unchanged.
\<close>

record element =
  el_slides :: "string list list"
  data_visible :: "int option"
  data_duration :: "int option"
  data_timingFunction :: "string option"
  css_keeps :: "string \<Rightarrow> bool"
  class_moving :: bool
  data_autoInterval :: "int option"
  data_autoDuration :: "int option"
  data_autoTimingFunction :: "string option"
  data_autoOnHover :: "string option"
  data_autoDir :: "string option"

text \<open>
  The object before the constructor's body runs: no custom property is set (a number reads
  as \<open>NaN\<close>, a string as empty, \<open>transition\<close> as true), and an unassigned field is
  \<open>undefined\<close>, which reads \<open>''undefined''\<close> once stored in a property. \<open>cmax\<close>, \<open>visible\<close>,
  \<open>prev\<close>, \<open>cur\<close> and \<open>next\<close> are assigned by both constructors before anything reads them.
\<close>

definition blank :: "element \<Rightarrow> carousel" where
  "blank el =
     \<lparr>cmax = 0, visible = 0, prev = 0, cur = 0, next = 0, dir = None, duration = None,
      defaultDuration = None, timingFunction = '''', defaultTimingFunction = ''undefined'',
      moving = class_moving el, transition = True, pointerStart = None,
      slideTransform = (\<lambda>i. NoTransform), listeners = [], frames = [], events = [],
      autoMove = False, autoSlideInterval = None, hover = False, timers = [], timerSeq = 0,
      autoInterval = data_autoInterval el, autoDuration = data_autoDuration el,
      autoTimingFunction = data_autoTimingFunction el, autoOnHover = data_autoOnHover el,
      autoDir = data_autoDir el\<rparr>"

subsection \<open>Construction in Carousel/index.js\<close>

text \<open>The loop of \<open>initSlides\<close>: \<open>for (i; i < this.visible && i < this.max; i++)\<close>.\<close>

function initLoop :: "int \<Rightarrow> int \<Rightarrow> int \<Rightarrow> int" where
  "initLoop i v m = (if i < v \<and> i < m then initLoop (i + 1) v m else i)"
  by pat_completeness auto
termination
  by (relation "measure (\<lambda>(i, v, m). nat (m - i))") auto

text \<open>
  In \<open>initSlides\<close>, \<open>this.slides[this.prev]\<close> is read only for \<open>max > 1\<close>, where it is a
  slide, and the accesses inside and after the loop use \<open>?.\<close>; \<open>this.slides[this.cur]\<close>
  with \<open>cur = 0\<close> is read unguarded.
\<close>

definition initSlides :: "element \<Rightarrow> carousel \<Rightarrow> error + carousel" where
  "initSlides el s =
     (let s1 = s\<lparr>cmax := int (length (el_slides el)) - 1\<rparr>;
          s2 = s1\<lparr>prev := cmax s1\<rparr>;
          s3 = s2\<lparr>cur := 0\<rparr>
      in if \<not> slides_ok s3 (cur s3) then Inl TypeError
         else Inr (s3\<lparr>next := initLoop 1 (visible s3) (cmax s3)\<rparr>))"

definition initTimingFunction :: "element \<Rightarrow> carousel \<Rightarrow> carousel" where
  "initTimingFunction el s =
     (let fn = (case data_timingFunction el of
                  None \<Rightarrow> DEFAULT_TIMING_FUNCTION
                | Some f \<Rightarrow> if css_keeps el f then f else DEFAULT_TIMING_FUNCTION)
      in set_timingFunction fn (s\<lparr>defaultTimingFunction := fn\<rparr>))"

definition initDuration :: "element \<Rightarrow> carousel \<Rightarrow> carousel" where
  "initDuration el s =
     (let d = (case data_duration el of None \<Rightarrow> 250 | Some d \<Rightarrow> if d > 0 then d else 250)
      in set_duration (Some d) (s\<lparr>defaultDuration := Some d\<rparr>))"

definition Carousel :: "element \<Rightarrow> error + carousel" where
  "Carousel el =
     (case initSlides el
             ((blank el)\<lparr>visible := (case data_visible el of None \<Rightarrow> 1 | Some v \<Rightarrow> v)\<rparr>) of
        Inl e \<Rightarrow> Inl e
      | Inr s \<Rightarrow>
          if int (length (el_slides el)) > visible s
          then Inr (initDuration el (initTimingFunction el (s\<lparr>dir := Some DIRECTIONS_fwd\<rparr>)))
          else Inr s)"

definition CarouselAutoMove :: "carousel \<Rightarrow> carousel" where
  "CarouselAutoMove s = start (s\<lparr>autoMove := True\<rparr>)"

subsection \<open>Construction in carousel.js\<close>

fun findIndex :: "('a \<Rightarrow> bool) \<Rightarrow> 'a list \<Rightarrow> int" where
  "findIndex P [] = - 1"
| "findIndex P (x # xs) =
     (if P x then 0 else (let r = findIndex P xs in if r < 0 then - 1 else r + 1))"

definition initSlides_c :: "element \<Rightarrow> carousel \<Rightarrow> carousel" where
  "initSlides_c el s =
     s\<lparr>prev := findIndex (\<lambda>c. ''prev'' \<in> set c) (el_slides el),
       cur := findIndex (\<lambda>c. ''cur'' \<in> set c) (el_slides el),
       next := findIndex (\<lambda>c. ''next'' \<in> set c) (el_slides el),
       cmax := int (length (el_slides el)) - 1\<rparr>"

text \<open>
  \<open>new Carousel(el, controlsClass, options)\<close> with \<open>options = {timingFunction, duration}\<close>.
  Nothing in the constructor dereferences a slide; for more than one slide it sets
  \<open>pointerStart = null\<close> and registers the pointer listeners, the observer and the controls.
\<close>

definition Carousel_c :: "element \<Rightarrow> string \<Rightarrow> int \<Rightarrow> error + carousel" where
  "Carousel_c el optTimingFunction optDuration =
     (let s = initSlides_c el
                ((blank el)\<lparr>duration := parseInt_ms (Some optDuration),
                            defaultDuration := Some optDuration,
                            timingFunction := optTimingFunction,
                            defaultTimingFunction := optTimingFunction\<rparr>)
      in if length (el_slides el) > 1 then Inr (s\<lparr>pointerStart := None\<rparr>) else Inr s)"

section \<open>Well-formed states\<close>

text \<open>
  The states the index arithmetic is about: the three anchors are slides (so there is at
  least one slide), and the window is between one slide and all of them.
\<close>

definition wf_state :: "carousel \<Rightarrow> bool" where
  "wf_state s \<longleftrightarrow>
     slides_ok s (prev s) \<and> slides_ok s (cur s) \<and> slides_ok s (next s) \<and>
     1 \<le> visible s \<and> visible s \<le> cmax s + 1"

text \<open>Nothing is pending: no listener waits for a transition, no frame callback is queued.\<close>

definition idle :: "carousel \<Rightarrow> bool" where
  "idle s \<longleftrightarrow> \<not> moving s \<and> listeners s = [] \<and> frames s = []"

section \<open>Example states\<close>

text \<open>
  \<open>resting m v c\<close>: a carousel of \<open>m + 1\<close> slides at rest on slide \<open>c\<close> with a window of \<open>v\<close>
  slides, as a forward step leaves it, with the default timing and no auto mover.
\<close>

definition resting :: "int \<Rightarrow> int \<Rightarrow> int \<Rightarrow> carousel" where
  "resting m v c =
     \<lparr>cmax = m, visible = v, prev = (c - 1) mod (m + 1), cur = c, next = (c + v) mod (m + 1),
      dir = Some DIRECTIONS_fwd, duration = Some 250, defaultDuration = Some 250,
      timingFunction = ''ease-in-out'', defaultTimingFunction = ''ease-in-out'',
      moving = False, transition = True, pointerStart = None,
      slideTransform = (\<lambda>i. NoTransform), listeners = [], frames = [], events = [],
      autoMove = False, autoSlideInterval = None, hover = False, timers = [], timerSeq = 0,
      autoInterval = None, autoDuration = None, autoTimingFunction = None,
      autoOnHover = None, autoDir = None\<rparr>"

text \<open>The anchors \<open>(prev, cur, next)\<close> of a result, \<open>None\<close> when the call threw.\<close>

definition anchors :: "error + carousel \<Rightarrow> (int \<times> int \<times> int) option" where
  "anchors r = (case r of Inl e \<Rightarrow> None | Inr s \<Rightarrow> Some (prev s, cur s, next s))"

text \<open>
  What the log of dispatched events shows of the steps: for each \<open>start\<close> event the slide
  it announces as current, with the duration and timing function in force.
\<close>

definition started :: "carousel \<Rightarrow> (int \<times> int option \<times> string) list" where
  "started s =
     map (\<lambda>e. (ev_cur (snd e), transitionDuration (snd e), transitionTimingFunction (snd e)))
       (filter (\<lambda>e. fst e = Ev_start) (events s))"

text \<open>The lifecycle events in the order of their dispatch (\<open>change\<close> events left out).\<close>

definition lifecycle :: "carousel \<Rightarrow> evkind list" where
  "lifecycle s = filter (\<lambda>k. k \<noteq> Ev_change) (map fst (events s))"

text \<open>
  The transitions in flight: the steps announced by a \<open>start\<close> event whose \<open>end\<close> event is
  not dispatched yet.
\<close>

definition in_flight :: "carousel \<Rightarrow> int" where
  "in_flight s =
     int (length (filter (\<lambda>e. fst e = Ev_start) (events s))) -
     int (length (filter (\<lambda>e. fst e = Ev_end) (events s)))"

text \<open>
  \<open>same_ring s s'\<close>: \<open>s'\<close> is a state of the same carousel as \<open>s\<close> (the slides, the window,
  the defaults and the attachment of the auto mover are those of \<open>s\<close>).
\<close>

definition same_ring :: "carousel \<Rightarrow> carousel \<Rightarrow> bool" where
  "same_ring s s' \<longleftrightarrow>
     cmax s' = cmax s \<and> visible s' = visible s \<and> defaultDuration s' = defaultDuration s \<and>
     defaultTimingFunction s' = defaultTimingFunction s \<and> autoMove s' = autoMove s"

text \<open>The net number of forward steps of a sequence of calls.\<close>

fun displacement :: "call list \<Rightarrow> int" where
  "displacement [] = 0"
| "displacement (Fwd # cs) = 1 + displacement cs"
| "displacement (Back # cs) = - 1 + displacement cs"

text \<open>
  \<open>wrapper slides\<close>: a wrapper element with the given slides (each a list of class names)
  and no \<open>data-*\<close> attribute, in a browser that keeps the five keyword timing functions.
\<close>

definition wrapper :: "string list list \<Rightarrow> element" where
  "wrapper slides =
     \<lparr>el_slides = slides, data_visible = None, data_duration = None,
      data_timingFunction = None,
      css_keeps = (\<lambda>f. f \<in> set [''ease'', ''linear'', ''ease-in'', ''ease-out'', ''ease-in-out'']),
      class_moving = False, data_autoInterval = None, data_autoDuration = None,
      data_autoTimingFunction = None, data_autoOnHover = None, data_autoDir = None\<rparr>"

text \<open>
  \<open>dragged\<close>: five slides at rest on slide 2 (carousel.js), after a pointer-down at
  \<open>pageX = 100\<close> and a pointer-move to 140: the direction is \<open>back\<close>, \<open>prev\<close> and \<open>next\<close> have
  changed places, and the three slides carry the live offset of 40 pixels.
\<close>

definition dragged :: carousel where
  "dragged =
     (resting 4 1 2)
       \<lparr>prev := 3, next := 1, dir := Some DIRECTIONS_back, transition := False,
        pointerStart := Some 100,
        slideTransform :=
          (\<lambda>i. NoTransform)(3 := TranslateCalc 100 40, 2 := TranslateX 40,
                             1 := TranslateCalc (- 100) 40)\<rparr>"

text \<open>
  At most one timer is pending, and it is the one whose handle the auto mover holds.
\<close>

definition one_timer :: "carousel \<Rightarrow> bool" where
  "one_timer s \<longleftrightarrow>
     timers s = [] \<or>
     (length (timers s) = 1 \<and> autoSlideInterval s = Some (fst (hd (timers s))))"

text \<open>\<open>keeps_one_timer f\<close>: whenever \<open>f\<close> returns, it has kept that invariant.\<close>

definition keeps_one_timer :: "(carousel \<Rightarrow> error + carousel) \<Rightarrow> bool" where
  "keeps_one_timer f \<longleftrightarrow> (\<forall>s s'. one_timer s \<longrightarrow> f s = Inr s' \<longrightarrow> one_timer s')"

text \<open>\<open>keeps_timers f\<close>: \<open>f\<close> touches neither the pending timers nor the handle.\<close>

definition keeps_timers :: "(carousel \<Rightarrow> error + carousel) \<Rightarrow> bool" where
  "keeps_timers f \<longleftrightarrow>
     (\<forall>s s'. f s = Inr s' \<longrightarrow>
        timers s' = timers s \<and> autoSlideInterval s' = autoSlideInterval s)"

section \<open>Properties of the steps\<close>

subsection \<open>The duration read back\<close>

lemma leading_digit_less: "leading_digit n < 10"
proof (induction n rule: leading_digit.induct)
  case (1 n)
  show ?case
  proof (cases "n < 10")
    case True
    then show ?thesis by (subst leading_digit.simps) simp
  next
    case False
    then have "leading_digit n = leading_digit (n div 10)" by (subst leading_digit.simps) simp
    with 1 False show ?thesis by simp
  qed
qed

lemma parseInt_ms_small: "\<bar>v\<bar> < 10 ^ 21 \<Longrightarrow> parseInt_ms (Some v) = Some v"
  by (simp add: parseInt_ms_def)

lemma parseInt_ms_60 [simp]: "parseInt_ms (Some 60) = Some 60"
  by (rule parseInt_ms_small) simp

lemma parseInt_ms_250 [simp]: "parseInt_ms (Some 250) = Some 250"
  by (rule parseInt_ms_small) simp

lemma parseInt_ms_1000 [simp]: "parseInt_ms (Some 1000) = Some 1000"
  by (rule parseInt_ms_small) simp

lemma parseInt_ms_None [simp]: "parseInt_ms None = None"
  by (simp add: parseInt_ms_def)

text \<open>From \<open>10^21\<close> on the duration is not read back as written.\<close>

lemma parseInt_ms_large: "parseInt_ms (Some (10 ^ 21)) = Some 1"
  by (simp add: parseInt_ms_def)

subsection \<open>The ring, as arithmetic modulo the number of slides\<close>

lemma ring_fwd:
  "0 \<le> c \<Longrightarrow> c \<le> m \<Longrightarrow> (c + 1) mod (m + 1) = (if c + 1 > m then 0 else c + (1::int))"
  by (auto simp: mod_pos_pos_trivial)

lemma ring_back:
  "0 \<le> c \<Longrightarrow> c \<le> m \<Longrightarrow> (c - 1) mod (m + 1) = (if c - 1 < 0 then m else c - (1::int))"
proof (cases "c = 0")
  case True
  assume "0 \<le> c" "c \<le> m"
  with True have "0 < m + 1" by simp
  then have "(- 1) mod (m + 1) = m" using zmod_minus1[of "m + 1"] by simp
  with True show ?thesis by simp
next
  case False
  assume "0 \<le> c" "c \<le> m"
  with False show ?thesis by (auto simp: mod_pos_pos_trivial)
qed

lemma ring_window:
  assumes "0 \<le> c" "c \<le> m" "1 \<le> v" "v \<le> m + 1"
  shows "(c + v) mod (m + 1) = (if c + v > m then c + v - 1 - m else c + (v::int))"
proof (cases "c + v > m")
  case True
  have "(c + v) mod (m + 1) = (c + v - 1 - m + (m + 1)) mod (m + 1)" by simp
  also have "\<dots> = (c + v - 1 - m) mod (m + 1)" by (simp only: mod_add_self2)
  also have "\<dots> = c + v - 1 - m" using True assms by (simp add: mod_pos_pos_trivial)
  finally show ?thesis using True by simp
next
  case False
  with assms show ?thesis by (simp add: mod_pos_pos_trivial)
qed

lemma ring_range: "0 \<le> m \<Longrightarrow> 0 \<le> x mod (m + 1) \<and> x mod (m + 1) \<le> (m::int)"
  using pos_mod_sign[of "m + 1" x] pos_mod_bound[of "m + 1" x] by simp

lemma slides_ok_mod: "0 \<le> cmax s \<Longrightarrow> slides_ok s (x mod (cmax s + 1))"
  using ring_range[of "cmax s" x] by (simp add: slides_ok_def)

subsection \<open>The index setters on a well-formed state\<close>

lemma setCur_step:
  assumes "slides_ok s (cur s)" "dir s = Some d" "d = DIRECTIONS_back \<or> d = DIRECTIONS_fwd"
  shows "setCur s = Inr (s\<lparr>cur := (cur s + d) mod (cmax s + 1)\<rparr>)"
proof -
  from assms(1) have r: "0 \<le> cur s" "cur s \<le> cmax s" by (simp_all add: slides_ok_def)
  from assms(3) show ?thesis
  proof
    assume d: "d = DIRECTIONS_back"
    with assms(2) r show ?thesis
      using ring_back[OF r]
      by (auto simp: setCur_def slides_ok_def DIRECTIONS_back_def DIRECTIONS_fwd_def Let_def)
  next
    assume d: "d = DIRECTIONS_fwd"
    with assms(2) r show ?thesis
      using ring_fwd[OF r]
      by (auto simp: setCur_def slides_ok_def DIRECTIONS_back_def DIRECTIONS_fwd_def Let_def)
  qed
qed

lemma ahead_mod:
  assumes "slides_ok s (cur s)" "1 \<le> visible s" "visible s \<le> cmax s + 1"
  shows "ahead s = (cur s + visible s) mod (cmax s + 1)"
  using assms ring_window[of "cur s" "cmax s" "visible s"] by (simp add: ahead_def slides_ok_def)

lemma behind_mod:
  assumes "slides_ok s (cur s)"
  shows "behind s = (cur s - 1) mod (cmax s + 1)"
  using assms ring_back[of "cur s" "cmax s"] by (simp add: behind_def slides_ok_def)

lemma setNext_step:
  assumes "slides_ok s (next s)" "slides_ok s (cur s)" "1 \<le> visible s" "visible s \<le> cmax s + 1"
  shows "setNext s =
    Inr (s\<lparr>next := (cur s + (if dir s = Some DIRECTIONS_fwd then visible s else - 1))
                     mod (cmax s + 1)\<rparr>)"
proof -
  from assms(2) have m: "0 \<le> cmax s" by (simp add: slides_ok_def)
  show ?thesis
    using assms(1) slides_ok_mod[OF m] ahead_mod[OF assms(2-4)] behind_mod[OF assms(2)]
    by (simp add: setNext_def)
qed

lemma setPrev_step:
  assumes "slides_ok s (prev s)" "slides_ok s (cur s)" "1 \<le> visible s" "visible s \<le> cmax s + 1"
  shows "setPrev s =
    Inr (s\<lparr>prev := (cur s + (if dir s = Some DIRECTIONS_fwd then - 1 else visible s))
                     mod (cmax s + 1)\<rparr>)"
proof -
  from assms(2) have m: "0 \<le> cmax s" by (simp add: slides_ok_def)
  show ?thesis
    using assms(1) slides_ok_mod[OF m] ahead_mod[OF assms(2-4)] behind_mod[OF assms(2)]
    by (simp add: setPrev_def)
qed

lemma setVis_ok:
  assumes "slides_ok s (cur s)" "visible s \<le> cmax s + 1"
  shows "setVis s = Inr s"
  using assms unfolding setVis_def slides_ok_def visIndex_def list_all_iff by auto

subsection \<open>What the auto mover's listeners leave alone\<close>

lemma stop_fields:
  "cmax (stop s) = cmax s" "visible (stop s) = visible s" "prev (stop s) = prev s"
  "cur (stop s) = cur s" "next (stop s) = next s" "dir (stop s) = dir s"
  "duration (stop s) = duration s" "defaultDuration (stop s) = defaultDuration s"
  "timingFunction (stop s) = timingFunction s"
  "defaultTimingFunction (stop s) = defaultTimingFunction s" "moving (stop s) = moving s"
  "transition (stop s) = transition s" "pointerStart (stop s) = pointerStart s"
  "slideTransform (stop s) = slideTransform s" "listeners (stop s) = listeners s"
  "frames (stop s) = frames s" "events (stop s) = events s" "autoMove (stop s) = autoMove s"
  "hover (stop s) = hover s" "autoInterval (stop s) = autoInterval s"
  "autoDuration (stop s) = autoDuration s" "autoTimingFunction (stop s) = autoTimingFunction s"
  "autoOnHover (stop s) = autoOnHover s" "autoDir (stop s) = autoDir s"
  by (simp_all add: stop_def split: option.split)

lemma start_fields:
  "cmax (start s) = cmax s" "visible (start s) = visible s" "prev (start s) = prev s"
  "cur (start s) = cur s" "next (start s) = next s" "dir (start s) = dir s"
  "duration (start s) = duration s" "defaultDuration (start s) = defaultDuration s"
  "timingFunction (start s) = timingFunction s"
  "defaultTimingFunction (start s) = defaultTimingFunction s" "moving (start s) = moving s"
  "transition (start s) = transition s" "pointerStart (start s) = pointerStart s"
  "slideTransform (start s) = slideTransform s" "listeners (start s) = listeners s"
  "frames (start s) = frames s" "events (start s) = events s" "autoMove (start s) = autoMove s"
  "hover (start s) = hover s" "autoInterval (start s) = autoInterval s"
  "autoDuration (start s) = autoDuration s" "autoTimingFunction (start s) = autoTimingFunction s"
  "autoOnHover (start s) = autoOnHover s" "autoDir (start s) = autoDir s"
  by (simp_all add: start_def Let_def stop_fields)

lemma on_transitionbefore_fields:
  "cmax (on_transitionbefore s) = cmax s" "visible (on_transitionbefore s) = visible s"
  "prev (on_transitionbefore s) = prev s" "cur (on_transitionbefore s) = cur s"
  "next (on_transitionbefore s) = next s" "dir (on_transitionbefore s) = dir s"
  "duration (on_transitionbefore s) = duration s"
  "defaultDuration (on_transitionbefore s) = defaultDuration s"
  "timingFunction (on_transitionbefore s) = timingFunction s"
  "defaultTimingFunction (on_transitionbefore s) = defaultTimingFunction s"
  "moving (on_transitionbefore s) = moving s" "transition (on_transitionbefore s) = transition s"
  "pointerStart (on_transitionbefore s) = pointerStart s"
  "slideTransform (on_transitionbefore s) = slideTransform s"
  "listeners (on_transitionbefore s) = listeners s" "frames (on_transitionbefore s) = frames s"
  "events (on_transitionbefore s) = events s" "autoMove (on_transitionbefore s) = autoMove s"
  "hover (on_transitionbefore s) = hover s"
  "autoInterval (on_transitionbefore s) = autoInterval s"
  "autoDuration (on_transitionbefore s) = autoDuration s"
  "autoTimingFunction (on_transitionbefore s) = autoTimingFunction s"
  "autoOnHover (on_transitionbefore s) = autoOnHover s"
  "autoDir (on_transitionbefore s) = autoDir s"
  by (simp_all add: on_transitionbefore_def stop_fields)

lemma on_transitionend_fields:
  "cmax (on_transitionend s) = cmax s" "visible (on_transitionend s) = visible s"
  "prev (on_transitionend s) = prev s" "cur (on_transitionend s) = cur s"
  "next (on_transitionend s) = next s" "dir (on_transitionend s) = dir s"
  "duration (on_transitionend s) = duration s"
  "defaultDuration (on_transitionend s) = defaultDuration s"
  "timingFunction (on_transitionend s) = timingFunction s"
  "defaultTimingFunction (on_transitionend s) = defaultTimingFunction s"
  "moving (on_transitionend s) = moving s" "transition (on_transitionend s) = transition s"
  "pointerStart (on_transitionend s) = pointerStart s"
  "slideTransform (on_transitionend s) = slideTransform s"
  "listeners (on_transitionend s) = listeners s" "frames (on_transitionend s) = frames s"
  "events (on_transitionend s) = events s" "autoMove (on_transitionend s) = autoMove s"
  "hover (on_transitionend s) = hover s" "autoInterval (on_transitionend s) = autoInterval s"
  "autoDuration (on_transitionend s) = autoDuration s"
  "autoTimingFunction (on_transitionend s) = autoTimingFunction s"
  "autoOnHover (on_transitionend s) = autoOnHover s" "autoDir (on_transitionend s) = autoDir s"
  by (simp_all add: on_transitionend_def start_fields)

lemmas auto_fields = on_transitionbefore_fields on_transitionend_fields

subsection \<open>One committed step of Carousel/index.js\<close>

lemmas tiny = dispatchTransitionBefore_def dispatchTransitionStart_def dispatchTransitionEnd_def
  dispatchTransitionChange_def emit_def set_duration_def set_timingFunction_def set_transition_def
  requestAnimationFrame_def auto_fields

lemma indices_step:
  assumes wf: "wf_state x" and d: "dir x = Some d" "d = DIRECTIONS_back \<or> d = DIRECTIONS_fwd"
  defines "c \<equiv> (cur x + d) mod (cmax x + 1)"
  defines "x' \<equiv> x\<lparr>cur := c,
      next := (c + (if d = DIRECTIONS_fwd then visible x else - 1)) mod (cmax x + 1),
      prev := (c + (if d = DIRECTIONS_fwd then - 1 else visible x)) mod (cmax x + 1)\<rparr>"
  shows "and_then setCur (and_then setNext setPrev) x = Inr x'"
    and "and_then setCur (and_then setVis (and_then setNext setPrev)) x = Inr x'"
proof -
  from wf have ok: "slides_ok x (prev x)" "slides_ok x (cur x)" "slides_ok x (next x)"
    and v: "1 \<le> visible x" "visible x \<le> cmax x + 1" by (simp_all add: wf_state_def)
  from ok(2) have m0: "0 \<le> cmax x" by (simp add: slides_ok_def)
  define x2 where "x2 = x\<lparr>cur := c\<rparr>"
  have s1: "setCur x = Inr x2"
    using setCur_step[OF ok(2) d] by (simp add: x2_def c_def)
  have f2: "cmax x2 = cmax x" "cur x2 = c" "dir x2 = Some d" "visible x2 = visible x"
    "next x2 = next x" "prev x2 = prev x"
    using d by (simp_all add: x2_def)
  have ok2: "slides_ok x2 (cur x2)"
    using slides_ok_mod[of x2 "cur x + d"] m0 f2 by (simp add: c_def)
  have vis: "setVis x2 = Inr x2" using setVis_ok[OF ok2] v f2 by simp
  define x3 where
    "x3 = x2\<lparr>next := (c + (if d = DIRECTIONS_fwd then visible x else - 1)) mod (cmax x + 1)\<rparr>"
  have n: "setNext x2 = Inr x3"
    using setNext_step[of x2] ok2 ok v f2 by (simp add: slides_ok_def x3_def)
  have f3: "cmax x3 = cmax x" "cur x3 = c" "dir x3 = Some d" "visible x3 = visible x"
    "prev x3 = prev x"
    using f2 by (simp_all add: x3_def)
  have ok3: "slides_ok x3 (cur x3)" using ok2 f2 f3 by (simp add: slides_ok_def)
  have p: "setPrev x3 = Inr x'"
    using setPrev_step[of x3] ok3 ok v f3 by (simp add: slides_ok_def x'_def x3_def x2_def)
  show "and_then setCur (and_then setNext setPrev) x = Inr x'"
    using s1 n p by (simp add: and_then_def)
  show "and_then setCur (and_then setVis (and_then setNext setPrev)) x = Inr x'"
    using s1 vis n p by (simp add: and_then_def)
qed

lemma move_step:
  assumes wf: "wf_state s" and m: "cmax s \<noteq> 1" and d: "dir s = Some d"
    "d = DIRECTIONS_back \<or> d = DIRECTIONS_fwd"
  shows "move s =
    Inr (dispatchTransitionStart
          ((dispatchTransitionBefore s)
             \<lparr>listeners := listeners s @ [(cur s, MovingEnd)], moving := True,
              cur := (cur s + d) mod (cmax s + 1),
              next := ((cur s + d) mod (cmax s + 1)
                         + (if d = DIRECTIONS_fwd then visible s else - 1)) mod (cmax s + 1),
              prev := ((cur s + d) mod (cmax s + 1)
                         + (if d = DIRECTIONS_fwd then - 1 else visible s)) mod (cmax s + 1)\<rparr>))"
proof -
  define s1 where
    "s1 = (dispatchTransitionBefore s)
            \<lparr>listeners := listeners s @ [(cur s, MovingEnd)], moving := True\<rparr>"
  have a: "set_moving True (dispatchTransitionBefore s) = Inr s1"
    using wf by (simp add: set_moving_def addEventListener_def s1_def wf_state_def slides_ok_def tiny)
  have wf1: "wf_state s1" using wf by (simp add: s1_def wf_state_def slides_ok_def tiny)
  have d1: "dir s1 = Some d" using d by (simp add: s1_def tiny)
  have f1: "cmax s1 = cmax s" "cur s1 = cur s" "visible s1 = visible s"
    by (simp_all add: s1_def tiny)
  show ?thesis
    unfolding move_def a using m indices_step(2)[OF wf1 d1 d(2)]
    by (simp add: f1) (simp add: s1_def)
qed

lemma move_two_slides:
  assumes wf: "wf_state s" and m: "cmax s = 1"
  shows "move s =
    Inr ((dispatchTransitionChange
           ((dispatchTransitionBefore s)
              \<lparr>listeners := listeners s @ [(cur s, MovingEnd)], moving := True,
               transition := False\<rparr>))\<lparr>frames := frames s @ [MoveOuter]\<rparr>)"
proof -
  define s1 where
    "s1 = (dispatchTransitionBefore s)
            \<lparr>listeners := listeners s @ [(cur s, MovingEnd)], moving := True\<rparr>"
  have a: "set_moving True (dispatchTransitionBefore s) = Inr s1"
    using wf by (simp add: set_moving_def addEventListener_def s1_def wf_state_def slides_ok_def tiny)
  have f1: "cmax s1 = 1" using m by (simp_all add: s1_def tiny)
  show ?thesis
    unfolding move_def a using f1 by (simp add: s1_def tiny)
qed

lemma frame_MoveOuter:
  assumes "frames x = MoveOuter # fs" "slides_ok x (prev x)"
  shows "frame x = Inr (x\<lparr>frames := fs @ [MoveInner]\<rparr>)"
  using assms by (simp add: frame_def runFrame_def requestAnimationFrame_def slides_ok_def)

lemma frame_MoveInner:
  assumes fr: "frames x = MoveInner # fs" and wf: "wf_state x" and d: "dir x = Some d"
    "d = DIRECTIONS_back \<or> d = DIRECTIONS_fwd"
  shows "frame x =
    Inr (dispatchTransitionStart
          ((dispatchTransitionChange (x\<lparr>frames := fs, transition := True\<rparr>))
             \<lparr>cur := (cur x + d) mod (cmax x + 1),
              next := ((cur x + d) mod (cmax x + 1)
                         + (if d = DIRECTIONS_fwd then visible x else - 1)) mod (cmax x + 1),
              prev := ((cur x + d) mod (cmax x + 1)
                         + (if d = DIRECTIONS_fwd then - 1 else visible x)) mod (cmax x + 1)\<rparr>))"
proof -
  define x1 where "x1 = set_transition True (x\<lparr>frames := fs\<rparr>)"
  have wf1: "wf_state x1" using wf by (simp add: x1_def wf_state_def slides_ok_def tiny)
  have d1: "dir x1 = Some d" using d by (simp add: x1_def tiny)
  have f1: "cmax x1 = cmax x" "cur x1 = cur x" "visible x1 = visible x"
    by (simp_all add: x1_def tiny)
  have "frame x = (case and_then setCur (and_then setNext setPrev) x1 of
      Inl e \<Rightarrow> Inl e | Inr s1 \<Rightarrow> Inr (dispatchTransitionStart s1))"
    using fr by (simp add: frame_def runFrame_def x1_def)
  then show ?thesis
    using indices_step(1)[OF wf1 d1 d(2)] by (simp add: f1) (simp add: x1_def tiny)
qed

lemma frame_idle: "frames x = [] \<Longrightarrow> frame x = Inr x"
  by (simp add: frame_def)

text \<open>
  A committed step, up to the \<open>start\<close> event: \<open>move\<close> and the two animation frames that
  the two-slide carousel needs (with more or fewer slides nothing is queued and the frames
  do nothing).
\<close>

lemma move_commit:
  assumes wf: "wf_state s" and fr: "frames s = []" and d: "dir s = Some d"
    "d = DIRECTIONS_back \<or> d = DIRECTIONS_fwd"
  shows "\<exists>s'. and_then move (and_then frame frame) s = Inr s' \<and>
    cur s' = (cur s + d) mod (cmax s + 1) \<and>
    next s' = (cur s' + (if d = DIRECTIONS_fwd then visible s else - 1)) mod (cmax s + 1) \<and>
    prev s' = (cur s' + (if d = DIRECTIONS_fwd then - 1 else visible s)) mod (cmax s + 1) \<and>
    cmax s' = cmax s \<and> visible s' = visible s \<and> dir s' = dir s"
proof (cases "cmax s = 1")
  case False
  define s' where "s' = dispatchTransitionStart
          ((dispatchTransitionBefore s)
             \<lparr>listeners := listeners s @ [(cur s, MovingEnd)], moving := True,
              cur := (cur s + d) mod (cmax s + 1),
              next := ((cur s + d) mod (cmax s + 1)
                         + (if d = DIRECTIONS_fwd then visible s else - 1)) mod (cmax s + 1),
              prev := ((cur s + d) mod (cmax s + 1)
                         + (if d = DIRECTIONS_fwd then - 1 else visible s)) mod (cmax s + 1)\<rparr>)"
  have mv: "move s = Inr s'" using move_step[OF wf False d] by (simp add: s'_def)
  have f: "frames s' = []" using fr by (simp add: s'_def tiny)
  have "and_then move (and_then frame frame) s = Inr s'"
    using mv f by (simp add: and_then_def frame_idle)
  moreover have "cur s' = (cur s + d) mod (cmax s + 1)" "cmax s' = cmax s"
    "visible s' = visible s" "dir s' = dir s"
    "next s' = ((cur s + d) mod (cmax s + 1)
                         + (if d = DIRECTIONS_fwd then visible s else - 1)) mod (cmax s + 1)"
    "prev s' = ((cur s + d) mod (cmax s + 1)
                         + (if d = DIRECTIONS_fwd then - 1 else visible s)) mod (cmax s + 1)"
    by (simp_all add: s'_def tiny)
  ultimately show ?thesis by simp
next
  case True
  define s1 where "s1 = (dispatchTransitionChange
           ((dispatchTransitionBefore s)
              \<lparr>listeners := listeners s @ [(cur s, MovingEnd)], moving := True,
               transition := False\<rparr>))\<lparr>frames := frames s @ [MoveOuter]\<rparr>"
  have mv: "move s = Inr s1" using move_two_slides[OF wf True] by (simp add: s1_def)
  have f1: "frames s1 = MoveOuter # []" "slides_ok s1 (prev s1)"
    using fr wf by (simp_all add: s1_def tiny wf_state_def slides_ok_def)
  define s2 where "s2 = s1\<lparr>frames := [] @ [MoveInner]\<rparr>"
  have fr1: "frame s1 = Inr s2" using frame_MoveOuter[OF f1] by (simp add: s2_def)
  have f2: "frames s2 = MoveInner # []" "wf_state s2" "dir s2 = Some d"
    "cur s2 = cur s" "cmax s2 = cmax s" "visible s2 = visible s"
    using wf d by (simp_all add: s2_def s1_def tiny wf_state_def slides_ok_def)
  define s' where "s' = dispatchTransitionStart
          ((dispatchTransitionChange (s2\<lparr>frames := [], transition := True\<rparr>))
             \<lparr>cur := (cur s + d) mod (cmax s + 1),
              next := ((cur s + d) mod (cmax s + 1)
                         + (if d = DIRECTIONS_fwd then visible s else - 1)) mod (cmax s + 1),
              prev := ((cur s + d) mod (cmax s + 1)
                         + (if d = DIRECTIONS_fwd then - 1 else visible s)) mod (cmax s + 1)\<rparr>)"
  have fr2: "frame s2 = Inr s'"
    using frame_MoveInner[OF f2(1) f2(2) f2(3) d(2)] by (simp add: s'_def f2)
  have "and_then move (and_then frame frame) s = Inr s'"
    using mv fr1 fr2 by (simp add: and_then_def)
  moreover have "cur s' = (cur s + d) mod (cmax s + 1)" "cmax s' = cmax s"
    "visible s' = visible s" "dir s' = dir s"
    "next s' = ((cur s + d) mod (cmax s + 1)
                         + (if d = DIRECTIONS_fwd then visible s else - 1)) mod (cmax s + 1)"
    "prev s' = ((cur s + d) mod (cmax s + 1)
                         + (if d = DIRECTIONS_fwd then - 1 else visible s)) mod (cmax s + 1)"
    using f2 d by (simp_all add: s'_def tiny)
  ultimately show ?thesis by simp
qed

subsection \<open>One committed step of carousel.js\<close>

lemma setNext_c_step:
  assumes "slides_ok s (next s)" "slides_ok s (cur s)" "dir s = Some d"
    "d = DIRECTIONS_back \<or> d = DIRECTIONS_fwd"
  shows "setNext_c s = Inr (s\<lparr>next := (cur s + d) mod (cmax s + 1)\<rparr>)"
proof -
  from assms(2) have r: "0 \<le> cur s" "cur s \<le> cmax s" by (simp_all add: slides_ok_def)
  then have m: "0 \<le> cmax s" by simp
  show ?thesis
    using assms(1,3,4) ring_fwd[OF r] ring_back[OF r] slides_ok_mod[OF m, of "cur s + 1"]
      slides_ok_mod[OF m, of "cur s - 1"]
    by (auto simp: setNext_c_def DIRECTIONS_back_def DIRECTIONS_fwd_def Let_def)
qed

lemma setPrev_c_step:
  assumes "slides_ok s (prev s)" "slides_ok s (cur s)" "dir s = Some d"
    "d = DIRECTIONS_back \<or> d = DIRECTIONS_fwd"
  shows "setPrev_c s = Inr (s\<lparr>prev := (cur s - d) mod (cmax s + 1)\<rparr>)"
proof -
  from assms(2) have r: "0 \<le> cur s" "cur s \<le> cmax s" by (simp_all add: slides_ok_def)
  then have m: "0 \<le> cmax s" by simp
  show ?thesis
    using assms(1,3,4) ring_fwd[OF r] ring_back[OF r] slides_ok_mod[OF m, of "cur s + 1"]
      slides_ok_mod[OF m, of "cur s - 1"]
    by (auto simp: setPrev_c_def DIRECTIONS_back_def DIRECTIONS_fwd_def Let_def)
qed

lemma move_c_step:
  assumes ok: "slides_ok s (prev s)" "slides_ok s (cur s)" "slides_ok s (next s)"
    and d: "dir s = Some d" "d = DIRECTIONS_back \<or> d = DIRECTIONS_fwd"
  defines "c \<equiv> (cur s + d) mod (cmax s + 1)"
  shows "move_c s =
    Inr (s\<lparr>cur := c, next := (c + d) mod (cmax s + 1), prev := (c - d) mod (cmax s + 1)\<rparr>)"
proof -
  from ok(2) have m0: "0 \<le> cmax s" by (simp add: slides_ok_def)
  define x2 where "x2 = s\<lparr>cur := c\<rparr>"
  have s1: "setCur s = Inr x2" using setCur_step[OF ok(2) d] by (simp add: x2_def c_def)
  have ok2: "slides_ok x2 (cur x2)" "slides_ok x2 (next x2)" "dir x2 = Some d"
    using slides_ok_mod[of x2 "cur s + d"] m0 ok d by (simp_all add: x2_def c_def slides_ok_def)
  define x3 where "x3 = x2\<lparr>next := (c + d) mod (cmax s + 1)\<rparr>"
  have n: "setNext_c x2 = Inr x3"
    using setNext_c_step[OF ok2(2) ok2(1) ok2(3) d(2)] by (simp add: x3_def x2_def)
  have ok3: "slides_ok x3 (prev x3)" "slides_ok x3 (cur x3)" "dir x3 = Some d"
    using ok2 ok by (simp_all add: x3_def x2_def slides_ok_def)
  have p: "setPrev_c x3 = Inr (x3\<lparr>prev := (c - d) mod (cmax s + 1)\<rparr>)"
    using setPrev_c_step[OF ok3 d(2)] by (simp add: x3_def x2_def)
  show ?thesis
    using s1 n p by (simp add: move_c_def and_then_def) (simp add: x3_def x2_def)
qed

section \<open>C1: the single step on the ring\<close>

text \<open>
  C1. For every state with \<open>max \<ge> 0\<close>, \<open>cur\<close> in \<open>[0, max]\<close> and \<open>dir\<close> one of \<open>back = -1\<close>,
  \<open>fwd = 1\<close>, \<open>setCur\<close> (the same text in both files) returns with
  \<open>cur' = (cur + dir) mod (max + 1)\<close>: a forward step from \<open>max\<close> gives 0, a backward step
  from 0 gives \<open>max\<close>, and every other step changes \<open>cur\<close> by \<open>dir\<close>. The same holds for the
  whole committed step, which \<open>back\<close>, \<open>fwd\<close>, a chained \<open>goto\<close> step and the auto mover all
  run through \<open>move\<close>: in Carousel/index.js once the start event is out (\<open>move\<close>, and for
  two slides its two animation frames), for a state whose other anchors are slides and
  whose window fits; in carousel.js at once.
\<close>

theorem setCur_ring_step:
  assumes "0 \<le> cmax s" "0 \<le> cur s" "cur s \<le> cmax s" "dir s = Some d"
    "d = DIRECTIONS_back \<or> d = DIRECTIONS_fwd"
  shows "(\<exists>s'. setCur s = Inr s' \<and> cur s' = (cur s + d) mod (cmax s + 1) \<and>
            cur s' = (if d = DIRECTIONS_fwd \<and> cur s = cmax s then 0
                      else if d = DIRECTIONS_back \<and> cur s = 0 then cmax s
                      else cur s + d)) \<and>
         (wf_state s \<and> frames s = [] \<longrightarrow>
            (\<exists>s'. and_then move (and_then frame frame) s = Inr s' \<and>
                  cur s' = (cur s + d) mod (cmax s + 1))) \<and>
         (slides_ok s (prev s) \<and> slides_ok s (next s) \<longrightarrow>
            (\<exists>s'. move_c s = Inr s' \<and> cur s' = (cur s + d) mod (cmax s + 1)))"
proof (intro conjI impI)
  have ok: "slides_ok s (cur s)" using assms(2,3) by (simp add: slides_ok_def)
  have r: "(cur s + d) mod (cmax s + 1) =
      (if d = DIRECTIONS_fwd \<and> cur s = cmax s then 0
       else if d = DIRECTIONS_back \<and> cur s = 0 then cmax s else cur s + d)"
    using assms(5) ring_fwd[OF assms(2,3)] ring_back[OF assms(2,3)] assms(2,3)
    by (auto simp: DIRECTIONS_back_def DIRECTIONS_fwd_def)
  show "\<exists>s'. setCur s = Inr s' \<and> cur s' = (cur s + d) mod (cmax s + 1) \<and>
            cur s' = (if d = DIRECTIONS_fwd \<and> cur s = cmax s then 0
                      else if d = DIRECTIONS_back \<and> cur s = 0 then cmax s
                      else cur s + d)"
    using setCur_step[OF ok assms(4,5)] r by simp
  show "\<exists>s'. and_then move (and_then frame frame) s = Inr s' \<and>
                  cur s' = (cur s + d) mod (cmax s + 1)"
    if "wf_state s \<and> frames s = []"
    using move_commit[OF _ _ assms(4,5)] that by blast
  show "\<exists>s'. move_c s = Inr s' \<and> cur s' = (cur s + d) mod (cmax s + 1)"
    if "slides_ok s (prev s) \<and> slides_ok s (next s)"
    using move_c_step[OF _ ok _ assms(4,5)] that by simp
qed

theorem setCur_ring_step_witness:
  "(\<exists>s'. setCur (resting 4 1 4) = Inr s' \<and> cur s' = 0) \<and>
   (\<exists>s'. and_then move (and_then frame frame) (resting 4 1 4) = Inr s' \<and> cur s' = 0) \<and>
   (\<exists>s'. move_c (resting 4 1 4) = Inr s' \<and> cur s' = 0) \<and>
   (\<exists>s'. setCur ((resting 4 1 0)\<lparr>dir := Some DIRECTIONS_back\<rparr>) = Inr s' \<and> cur s' = 4)"
proof -
  have a: "wf_state (resting 4 1 4)" "frames (resting 4 1 4) = []"
    "slides_ok (resting 4 1 4) (prev (resting 4 1 4))"
    "slides_ok (resting 4 1 4) (next (resting 4 1 4))"
    by (simp_all add: resting_def wf_state_def slides_ok_def)
  have "\<exists>s'. setCur ((resting 4 1 0)\<lparr>dir := Some DIRECTIONS_back\<rparr>) = Inr s' \<and> cur s' = 4"
    using setCur_ring_step[of "(resting 4 1 0)\<lparr>dir := Some DIRECTIONS_back\<rparr>" DIRECTIONS_back]
    by (simp add: resting_def DIRECTIONS_back_def DIRECTIONS_fwd_def)
  moreover have "(\<exists>s'. setCur (resting 4 1 4) = Inr s' \<and> cur s' = 0) \<and>
   (\<exists>s'. and_then move (and_then frame frame) (resting 4 1 4) = Inr s' \<and> cur s' = 0) \<and>
   (\<exists>s'. move_c (resting 4 1 4) = Inr s' \<and> cur s' = 0)"
    using setCur_ring_step[of "resting 4 1 4" DIRECTIONS_fwd] a
    by (simp add: resting_def DIRECTIONS_back_def DIRECTIONS_fwd_def)
  ultimately show ?thesis by simp
qed

section \<open>C2: the anchors after a step\<close>

lemmas run_defs = back_op_def fwd_def move_def set_moving_def addEventListener_def
  dispatchTransitionBefore_def dispatchTransitionStart_def dispatchTransitionEnd_def
  dispatchTransitionChange_def emit_def set_duration_def set_timingFunction_def set_transition_def
  requestAnimationFrame_def on_transitionbefore_def on_transitionend_def stop_def start_def
  and_then_def setCur_def setVis_def visIndex_def setNext_def setPrev_def ahead_def behind_def
  slides_ok_def frame_def runFrame_def eventData_def anchors_def reset_def
  DIRECTIONS_back_def DIRECTIONS_fwd_def Let_def

text \<open>
  The claim's formulas, \<open>next = (cur + visibleCount) mod (max + 1)\<close> and
  \<open>prev = (cur - 1) mod (max + 1)\<close> whatever the direction, fail on the claim's own second
  example: with five slides and a window of one, \<open>back\<close> from slide 0 leaves \<open>cur = 4\<close>,
  \<open>prev = 0\<close> and \<open>next = 3\<close>, where the formulas give \<open>prev = 3\<close> and \<open>next = 0\<close>. And a window
  wider than the ring makes the step throw: two slides and a window of three.
\<close>

theorem anchors_direction_counterexample:
  "anchors (and_then back_op (and_then frame frame) (resting 4 1 0)) = Some (0, 4, 3) \<and>
   ((4 - 1) mod (4 + 1), (4 + 1) mod (4 + 1)) = (3 :: int, 0 :: int) \<and>
   anchors (and_then fwd (and_then frame frame) (resting 1 3 0)) = None"
  by (simp add: resting_def run_defs)

text \<open>
  C2, amended. After a committed step of a carousel with at least two slides and a window
  of \<open>1 \<le> visibleCount \<le> max + 1\<close> slides, the anchors follow the direction of the step: a
  forward step leaves \<open>next = (cur + visibleCount) mod (max + 1)\<close> and
  \<open>prev = (cur - 1) mod (max + 1)\<close>; a backward step leaves the two exchanged,
  \<open>next = (cur - 1) mod (max + 1)\<close> and \<open>prev = (cur + visibleCount) mod (max + 1)\<close>. This is
  stated for \<open>fwd\<close>, for \<open>back\<close>, and for \<open>move\<close> under either direction (the step of a
  \<open>goto\<close> chain and of the auto mover).
\<close>

theorem anchors_follow_direction:
  assumes "wf_state s" "1 \<le> cmax s" "\<not> moving s" "frames s = []"
  shows "(\<exists>s'. and_then fwd (and_then frame frame) s = Inr s' \<and>
            cur s' = (cur s + 1) mod (cmax s + 1) \<and>
            next s' = (cur s' + visible s) mod (cmax s + 1) \<and>
            prev s' = (cur s' - 1) mod (cmax s + 1)) \<and>
         (\<exists>s'. and_then back_op (and_then frame frame) s = Inr s' \<and>
            cur s' = (cur s - 1) mod (cmax s + 1) \<and>
            next s' = (cur s' - 1) mod (cmax s + 1) \<and>
            prev s' = (cur s' + visible s) mod (cmax s + 1)) \<and>
         (dir s = Some DIRECTIONS_fwd \<longrightarrow>
            (\<exists>s'. and_then move (and_then frame frame) s = Inr s' \<and>
               cur s' = (cur s + 1) mod (cmax s + 1) \<and>
               next s' = (cur s' + visible s) mod (cmax s + 1) \<and>
               prev s' = (cur s' - 1) mod (cmax s + 1))) \<and>
         (dir s = Some DIRECTIONS_back \<longrightarrow>
            (\<exists>s'. and_then move (and_then frame frame) s = Inr s' \<and>
               cur s' = (cur s - 1) mod (cmax s + 1) \<and>
               next s' = (cur s' - 1) mod (cmax s + 1) \<and>
               prev s' = (cur s' + visible s) mod (cmax s + 1)))"
proof (intro conjI impI)
  have wfd: "wf_state (s\<lparr>dir := Some d\<rparr>)" "frames (s\<lparr>dir := Some d\<rparr>) = []" for d
    using assms by (simp_all add: wf_state_def slides_ok_def)
  have f: "fwd s = move (s\<lparr>dir := Some DIRECTIONS_fwd\<rparr>)"
    and b: "back_op s = move (s\<lparr>dir := Some DIRECTIONS_back\<rparr>)"
    using assms by (simp_all add: fwd_def back_op_def)
  show "\<exists>s'. and_then fwd (and_then frame frame) s = Inr s' \<and>
            cur s' = (cur s + 1) mod (cmax s + 1) \<and>
            next s' = (cur s' + visible s) mod (cmax s + 1) \<and>
            prev s' = (cur s' - 1) mod (cmax s + 1)"
    using move_commit[OF wfd, of DIRECTIONS_fwd DIRECTIONS_fwd] f
    by (auto simp: and_then_def DIRECTIONS_fwd_def)
  show "\<exists>s'. and_then back_op (and_then frame frame) s = Inr s' \<and>
            cur s' = (cur s - 1) mod (cmax s + 1) \<and>
            next s' = (cur s' - 1) mod (cmax s + 1) \<and>
            prev s' = (cur s' + visible s) mod (cmax s + 1)"
    using move_commit[OF wfd, of DIRECTIONS_back DIRECTIONS_back] b
    by (auto simp: and_then_def DIRECTIONS_fwd_def DIRECTIONS_back_def)
  show "\<exists>s'. and_then move (and_then frame frame) s = Inr s' \<and>
               cur s' = (cur s + 1) mod (cmax s + 1) \<and>
               next s' = (cur s' + visible s) mod (cmax s + 1) \<and>
               prev s' = (cur s' - 1) mod (cmax s + 1)"
    if "dir s = Some DIRECTIONS_fwd"
    using move_commit[OF assms(1,4) that] by (auto simp: DIRECTIONS_fwd_def)
  show "\<exists>s'. and_then move (and_then frame frame) s = Inr s' \<and>
               cur s' = (cur s - 1) mod (cmax s + 1) \<and>
               next s' = (cur s' - 1) mod (cmax s + 1) \<and>
               prev s' = (cur s' + visible s) mod (cmax s + 1)"
    if "dir s = Some DIRECTIONS_back"
    using move_commit[OF assms(1,4) that]
    by (auto simp: DIRECTIONS_fwd_def DIRECTIONS_back_def)
qed

theorem anchors_follow_direction_witness:
  "(\<exists>s'. and_then fwd (and_then frame frame) (resting 4 1 2) = Inr s' \<and>
      cur s' = 3 \<and> next s' = 4 \<and> prev s' = 2) \<and>
   (\<exists>s'. and_then back_op (and_then frame frame) (resting 4 1 2) = Inr s' \<and>
      cur s' = 1 \<and> next s' = 0 \<and> prev s' = 2) \<and>
   (\<exists>s'. and_then move (and_then frame frame) (resting 4 1 2) = Inr s' \<and>
      cur s' = 3 \<and> next s' = 4 \<and> prev s' = 2)"
proof -
  have a: "wf_state (resting 4 1 2)" "1 \<le> cmax (resting 4 1 2)" "\<not> moving (resting 4 1 2)"
    "frames (resting 4 1 2) = []" "dir (resting 4 1 2) = Some DIRECTIONS_fwd"
    "cur (resting 4 1 2) = 2" "cmax (resting 4 1 2) = 4" "visible (resting 4 1 2) = 1"
    by (simp_all add: resting_def wf_state_def slides_ok_def)
  show ?thesis
    using anchors_follow_direction[OF a(1-4)] a(5-8)
    by (auto simp: DIRECTIONS_fwd_def DIRECTIONS_back_def)
qed

section \<open>Awaiting a step\<close>

lemma settle_idle: "frames s = [] \<Longrightarrow> listeners s = [] \<Longrightarrow> settle k s = Some (Inr s)"
  by (cases k) simp_all

lemma settle_frame:
  "frames s \<noteq> [] \<Longrightarrow> frame s = Inr s' \<Longrightarrow> settle (Suc k) s = settle k s'"
  by simp

lemma settle_transitionend:
  "frames s = [] \<Longrightarrow> listeners s = (c, l) # ls \<Longrightarrow>
   settle (Suc k) s = settle k (transitionend c s)"
  by simp

lemma reset_fields:
  "cmax (reset x) = cmax x" "visible (reset x) = visible x" "prev (reset x) = prev x"
  "cur (reset x) = cur x" "next (reset x) = next x" "dir (reset x) = dir x"
  "duration (reset x) = parseInt_ms (defaultDuration x)" "defaultDuration (reset x) = defaultDuration x"
  "timingFunction (reset x) = defaultTimingFunction x"
  "defaultTimingFunction (reset x) = defaultTimingFunction x"
  "moving (reset x) = False" "transition (reset x) = transition x"
  "listeners (reset x) = listeners x" "frames (reset x) = frames x"
  "autoMove (reset x) = autoMove x" "hover (reset x) = hover x"
  "started (reset x) = started x" "lifecycle (reset x) = lifecycle x @ [Ev_end]"
  by (simp_all add: reset_def tiny started_def lifecycle_def Let_def)

text \<open>
  From the \<open>start\<close> event of a step to its end. \<open>x\<close> is the state after the \<open>start\<close> event:
  the step's listeners sit on one slide \<open>c\<close>, the one of \<open>set moving\<close> last. With two slides
  the end takes the \<open>transitionend\<close> and two animation frames, otherwise the \<open>transitionend\<close>
  alone.
\<close>

lemma finish_step:
  assumes fr: "frames x = []" and ls: "listeners x = [(c, MovingEnd)]"
    and p: "slides_ok x (prev x)"
  shows "\<exists>x'. settle (Suc (Suc (Suc j))) x = Some (Inr x') \<and> same_ring x x' \<and>
    prev x' = prev x \<and> cur x' = cur x \<and> next x' = next x \<and> dir x' = dir x \<and>
    duration x' = parseInt_ms (defaultDuration x) \<and> timingFunction x' = defaultTimingFunction x \<and>
    \<not> moving x' \<and> listeners x' = [] \<and> frames x' = [] \<and> started x' = started x \<and>
    lifecycle x' = lifecycle x @ [Ev_end]"
proof (cases "cmax x = 1")
  case False
  define x' where "x' = reset (x\<lparr>listeners := []\<rparr>)"
  have te: "transitionend c x = x'"
    using ls False by (simp add: transitionend_def runListener_def x'_def)
  have "settle (Suc (Suc (Suc j))) x = settle (Suc (Suc j)) x'"
    using settle_transitionend[OF fr ls, of "Suc (Suc j)"] unfolding te .
  moreover have "frames x' = []" "listeners x' = []"
    using fr by (simp_all add: x'_def reset_fields)
  ultimately have "settle (Suc (Suc (Suc j))) x = Some (Inr x')"
    by (simp only: settle_idle)
  then show ?thesis
    using fr by (simp add: x'_def reset_fields same_ring_def)
      (simp add: started_def lifecycle_def)
next
  case True
  define x1 where
    "x1 = requestAnimationFrame ResetOuter (set_transition False (x\<lparr>listeners := []\<rparr>))"
  have te: "transitionend c x = x1"
    using ls True by (simp add: transitionend_def runListener_def x1_def)
  have f1: "frames x1 = [ResetOuter]" "slides_ok x1 (prev x1)" "listeners x1 = []"
    using fr p by (simp_all add: x1_def tiny slides_ok_def)
  define x2 where "x2 = requestAnimationFrame ResetInner (x1\<lparr>frames := []\<rparr>)"
  have fr1: "frame x1 = Inr x2"
    using f1 by (simp add: frame_def runFrame_def x2_def slides_ok_def)
  have f2: "frames x2 = [ResetInner]" "listeners x2 = []"
    using f1 by (simp_all add: x2_def tiny)
  define x' where "x' = reset (set_transition True (x2\<lparr>frames := []\<rparr>))"
  have fr2: "frame x2 = Inr x'"
    using f2 by (simp add: frame_def runFrame_def x'_def)
  have i: "frames x' = []" "listeners x' = []"
    using f2 by (simp_all add: x'_def reset_fields tiny)
  have ne: "frames x1 \<noteq> []" "frames x2 \<noteq> []" using f1 f2 by simp_all
  have "settle (Suc (Suc (Suc j))) x = settle (Suc (Suc j)) x1"
    using settle_transitionend[OF fr ls, of "Suc (Suc j)"] unfolding te .
  also have "\<dots> = settle (Suc j) x2"
    by (rule settle_frame[OF ne(1) fr1])
  also have "\<dots> = settle j x'"
    by (rule settle_frame[OF ne(2) fr2])
  also have "\<dots> = Some (Inr x')" using i by (simp only: settle_idle)
  finally have "settle (Suc (Suc (Suc j))) x = Some (Inr x')" .
  then show ?thesis
    by (simp add: x'_def reset_fields same_ring_def tiny x2_def x1_def)
      (simp add: started_def lifecycle_def x'_def reset_def x2_def x1_def tiny)
qed

text \<open>
  From \<open>move\<close> to the \<open>start\<close> event: at once, or with two slides after two animation
  frames. \<open>x\<close> is the state after the \<open>start\<close> event.
\<close>

lemma begin_step:
  assumes wf: "wf_state s" and fr: "frames s = []" and d: "dir s = Some d"
    "d = DIRECTIONS_back \<or> d = DIRECTIONS_fwd"
  shows "\<exists>s1 x. move s = Inr s1 \<and>
    settle (Suc (Suc k)) s1 = settle (if cmax s = 1 then k else Suc (Suc k)) x \<and>
    frames x = [] \<and> listeners x = listeners s @ [(cur s, MovingEnd)] \<and> moving x \<and>
    wf_state x \<and> same_ring s x \<and>
    cur x = (cur s + d) mod (cmax s + 1) \<and>
    next x = (cur x + (if d = DIRECTIONS_fwd then visible s else - 1)) mod (cmax s + 1) \<and>
    prev x = (cur x + (if d = DIRECTIONS_fwd then - 1 else visible s)) mod (cmax s + 1) \<and>
    dir x = dir s \<and> duration x = duration s \<and> timingFunction x = timingFunction s \<and>
    started x = started s @ [(cur x, duration s, timingFunction s)] \<and>
    lifecycle x = lifecycle s @ [Ev_before, Ev_start]"
proof -
  from wf have m0: "0 \<le> cmax s" and v: "1 \<le> visible s" "visible s \<le> cmax s + 1"
    by (simp_all add: wf_state_def slides_ok_def)
  have rng: "0 \<le> y mod (cmax s + 1)" "y mod (cmax s + 1) \<le> cmax s" for y
    using ring_range[OF m0, of y] by simp_all
  show ?thesis
  proof (cases "cmax s = 1")
    case False
    define x where "x = dispatchTransitionStart
          ((dispatchTransitionBefore s)
             \<lparr>listeners := listeners s @ [(cur s, MovingEnd)], moving := True,
              cur := (cur s + d) mod (cmax s + 1),
              next := ((cur s + d) mod (cmax s + 1)
                         + (if d = DIRECTIONS_fwd then visible s else - 1)) mod (cmax s + 1),
              prev := ((cur s + d) mod (cmax s + 1)
                         + (if d = DIRECTIONS_fwd then - 1 else visible s)) mod (cmax s + 1)\<rparr>)"
    have mv: "move s = Inr x" using move_step[OF wf False d] by (simp add: x_def)
    have "frames x = []" "listeners x = listeners s @ [(cur s, MovingEnd)]" "moving x"
      "wf_state x" "same_ring s x" "cur x = (cur s + d) mod (cmax s + 1)"
      "next x = (cur x + (if d = DIRECTIONS_fwd then visible s else - 1)) mod (cmax s + 1)"
      "prev x = (cur x + (if d = DIRECTIONS_fwd then - 1 else visible s)) mod (cmax s + 1)"
      "dir x = dir s" "duration x = duration s" "timingFunction x = timingFunction s"
      using fr v rng by (simp_all add: x_def tiny wf_state_def slides_ok_def same_ring_def)
    moreover have "started x = started s @ [(cur x, duration s, timingFunction s)]"
      "lifecycle x = lifecycle s @ [Ev_before, Ev_start]"
      by (simp_all add: x_def tiny started_def lifecycle_def eventData_def)
    ultimately show ?thesis
      using mv False by (intro exI[of _ x]) (simp del: settle.simps)
  next
    case True
    define s1 where "s1 = (dispatchTransitionChange
           ((dispatchTransitionBefore s)
              \<lparr>listeners := listeners s @ [(cur s, MovingEnd)], moving := True,
               transition := False\<rparr>))\<lparr>frames := frames s @ [MoveOuter]\<rparr>"
    have mv: "move s = Inr s1" using move_two_slides[OF wf True] by (simp add: s1_def)
    have f1: "frames s1 = MoveOuter # []" "slides_ok s1 (prev s1)"
      using fr wf by (simp_all add: s1_def tiny wf_state_def slides_ok_def)
    define s2 where "s2 = s1\<lparr>frames := [] @ [MoveInner]\<rparr>"
    have fr1: "frame s1 = Inr s2" using frame_MoveOuter[OF f1] by (simp add: s2_def)
    have f2: "frames s2 = MoveInner # []" "wf_state s2" "dir s2 = Some d"
      "cur s2 = cur s" "cmax s2 = cmax s" "visible s2 = visible s"
      using wf d by (simp_all add: s2_def s1_def tiny wf_state_def slides_ok_def)
    define x where "x = dispatchTransitionStart
          ((dispatchTransitionChange (s2\<lparr>frames := [], transition := True\<rparr>))
             \<lparr>cur := (cur s + d) mod (cmax s + 1),
              next := ((cur s + d) mod (cmax s + 1)
                         + (if d = DIRECTIONS_fwd then visible s else - 1)) mod (cmax s + 1),
              prev := ((cur s + d) mod (cmax s + 1)
                         + (if d = DIRECTIONS_fwd then - 1 else visible s)) mod (cmax s + 1)\<rparr>)"
    have fr2: "frame s2 = Inr x"
      using frame_MoveInner[OF f2(1) f2(2) f2(3) d(2)] by (simp add: x_def f2)
    have ne: "frames s1 \<noteq> []" "frames s2 \<noteq> []" using f1 f2 by simp_all
    have "settle (Suc (Suc k)) s1 = settle (Suc k) s2" by (rule settle_frame[OF ne(1) fr1])
    also have "\<dots> = settle k x" by (rule settle_frame[OF ne(2) fr2])
    finally have st: "settle (Suc (Suc k)) s1 = settle k x" .
    have "frames x = []" "listeners x = listeners s @ [(cur s, MovingEnd)]" "moving x"
      "wf_state x" "same_ring s x" "cur x = (cur s + d) mod (cmax s + 1)"
      "next x = (cur x + (if d = DIRECTIONS_fwd then visible s else - 1)) mod (cmax s + 1)"
      "prev x = (cur x + (if d = DIRECTIONS_fwd then - 1 else visible s)) mod (cmax s + 1)"
      "dir x = dir s" "duration x = duration s" "timingFunction x = timingFunction s"
      using fr v rng
      by (simp_all add: x_def s2_def s1_def tiny wf_state_def slides_ok_def same_ring_def)
    moreover have "started x = started s @ [(cur x, duration s, timingFunction s)]"
      "lifecycle x = lifecycle s @ [Ev_before, Ev_start]"
      by (simp_all add: x_def s2_def s1_def tiny started_def lifecycle_def eventData_def)
    ultimately show ?thesis
      using mv st True by (intro exI[of _ s1] exI[of _ x]) (simp del: settle.simps)
  qed
qed

text \<open>A whole step, awaited: \<open>move\<close> on an idle carousel, then at most five deliveries.\<close>

lemma step_await:
  assumes wf: "wf_state s" and i: "idle s" and d: "dir s = Some d"
    "d = DIRECTIONS_back \<or> d = DIRECTIONS_fwd"
  shows "\<exists>s1 s'. move s = Inr s1 \<and> settle (5 + j) s1 = Some (Inr s') \<and>
    wf_state s' \<and> idle s' \<and> same_ring s s' \<and>
    cur s' = (cur s + d) mod (cmax s + 1) \<and>
    next s' = (cur s' + (if d = DIRECTIONS_fwd then visible s else - 1)) mod (cmax s + 1) \<and>
    prev s' = (cur s' + (if d = DIRECTIONS_fwd then - 1 else visible s)) mod (cmax s + 1) \<and>
    dir s' = dir s \<and> duration s' = parseInt_ms (defaultDuration s) \<and>
    timingFunction s' = defaultTimingFunction s \<and>
    started s' = started s @ [(cur s', duration s, timingFunction s)] \<and>
    lifecycle s' = lifecycle s @ [Ev_before, Ev_start, Ev_end]"
proof -
  from i have fr: "frames s = []" and ls: "listeners s = []" by (simp_all add: idle_def)
  obtain s1 x where b: "move s = Inr s1"
    "settle (Suc (Suc (Suc (Suc (Suc j))))) s1 =
       settle (if cmax s = 1 then Suc (Suc (Suc j)) else Suc (Suc (Suc (Suc (Suc j))))) x"
    "frames x = []" "listeners x = listeners s @ [(cur s, MovingEnd)]" "moving x"
    "wf_state x" "same_ring s x"
    "cur x = (cur s + d) mod (cmax s + 1)"
    "next x = (cur x + (if d = DIRECTIONS_fwd then visible s else - 1)) mod (cmax s + 1)"
    "prev x = (cur x + (if d = DIRECTIONS_fwd then - 1 else visible s)) mod (cmax s + 1)"
    "dir x = dir s" "duration x = duration s" "timingFunction x = timingFunction s"
    "started x = started s @ [(cur x, duration s, timingFunction s)]"
    "lifecycle x = lifecycle s @ [Ev_before, Ev_start]"
    using begin_step[OF wf fr d, of "Suc (Suc (Suc j))"] by blast
  have lx: "listeners x = [(cur s, MovingEnd)]" using b(4) ls by simp
  have px: "slides_ok x (prev x)" using b(6) by (simp add: wf_state_def)
  obtain x' where f: "settle (Suc (Suc (Suc (if cmax s = 1 then j else Suc (Suc j))))) x
      = Some (Inr x')" "same_ring x x'"
    "prev x' = prev x" "cur x' = cur x" "next x' = next x" "dir x' = dir x"
    "duration x' = parseInt_ms (defaultDuration x)" "timingFunction x' = defaultTimingFunction x"
    "\<not> moving x'" "listeners x' = []" "frames x' = []" "started x' = started x"
    "lifecycle x' = lifecycle x @ [Ev_end]"
    using finish_step[OF b(3) lx px, of "if cmax s = 1 then j else Suc (Suc j)"] by blast
  have "settle (5 + j) s1 = Some (Inr x')"
    using b(2) f(1) by (simp add: eval_nat_numeral del: settle.simps split: if_splits)
  moreover have "wf_state x'"
    using b(6) b(7) f(2-5) by (simp add: wf_state_def slides_ok_def same_ring_def)
  moreover have "idle x'" using f by (simp add: idle_def)
  moreover have "same_ring s x'" using b(7) f(2) by (simp add: same_ring_def)
  ultimately show ?thesis
    using b f by (intro exI[of _ s1] exI[of _ x']) (simp add: same_ring_def del: settle.simps)
qed

section \<open>C9: sequences of awaited \<open>fwd\<close> and \<open>back\<close> calls\<close>

lemma call_await:
  assumes wf: "wf_state s" and i: "idle s" and m: "1 \<le> cmax s"
  shows "\<exists>s1 s'. (case c of Fwd \<Rightarrow> fwd s | Back \<Rightarrow> back_op s) = Inr s1 \<and>
    settle (5 + j) s1 = Some (Inr s') \<and> wf_state s' \<and> idle s' \<and> same_ring s s' \<and>
    cur s' = (cur s + displacement [c]) mod (cmax s + 1)"
proof -
  define d where "d = (case c of Fwd \<Rightarrow> DIRECTIONS_fwd | Back \<Rightarrow> DIRECTIONS_back)"
  define t where "t = s\<lparr>dir := Some d\<rparr>"
  have c: "(case c of Fwd \<Rightarrow> fwd s | Back \<Rightarrow> back_op s) = move t"
    using i m by (cases c) (simp_all add: fwd_def back_op_def idle_def t_def d_def)
  have t: "wf_state t" "idle t" "dir t = Some d" "d = DIRECTIONS_back \<or> d = DIRECTIONS_fwd"
    "cur t = cur s" "cmax t = cmax s" "same_ring s t"
    using wf i by (cases c; simp add: t_def d_def wf_state_def slides_ok_def idle_def same_ring_def)+
  have e: "d = displacement [c]"
    by (cases c) (simp_all add: d_def DIRECTIONS_fwd_def DIRECTIONS_back_def)
  obtain s1 s' where r: "move t = Inr s1" "settle (5 + j) s1 = Some (Inr s')"
    "wf_state s'" "idle s'" "same_ring t s'" "cur s' = (cur t + d) mod (cmax t + 1)"
    using step_await[OF t(1-4), of j] by blast
  have "same_ring s s'" using t(7) r(5) by (simp add: same_ring_def)
  then show ?thesis
    using c r t(5,6) e by (intro exI[of _ s1] exI[of _ s']) (simp del: settle.simps)
qed

lemma run_calls_result:
  assumes "wf_state s" "idle s" "1 \<le> cmax s"
  shows "\<exists>s'. run_calls (5 + j) cs s = Some (Inr s') \<and> wf_state s' \<and> idle s' \<and>
    same_ring s s' \<and> cur s' = (cur s + displacement cs) mod (cmax s + 1)"
  using assms
proof (induction cs arbitrary: s)
  case Nil
  then have "0 \<le> cur s" "cur s \<le> cmax s" by (simp_all add: wf_state_def slides_ok_def)
  then have "cur s mod (cmax s + 1) = cur s" by (simp add: mod_pos_pos_trivial)
  with Nil show ?case by (simp add: same_ring_def)
next
  case (Cons c cs)
  obtain s1 s2 where a: "(case c of Fwd \<Rightarrow> fwd s | Back \<Rightarrow> back_op s) = Inr s1"
    "settle (5 + j) s1 = Some (Inr s2)" "wf_state s2" "idle s2" "same_ring s s2"
    "cur s2 = (cur s + displacement [c]) mod (cmax s + 1)"
    using call_await[OF Cons.prems, of c j] by blast
  from a(5) Cons.prems(3) have m2: "1 \<le> cmax s2" "cmax s2 = cmax s"
    by (simp_all add: same_ring_def)
  obtain s' where b: "run_calls (5 + j) cs s2 = Some (Inr s')" "wf_state s'" "idle s'"
    "same_ring s2 s'" "cur s' = (cur s2 + displacement cs) mod (cmax s2 + 1)"
    using Cons.IH[OF a(3,4) m2(1)] by blast
  have r: "run_calls (5 + j) (c # cs) s = Some (Inr s')"
    using a(1,2) b(1) by (simp del: settle.simps)
  have "cur s' = ((cur s + displacement [c]) mod (cmax s + 1) + displacement cs) mod (cmax s + 1)"
    using b(5) a(6) m2(2) by simp
  also have "\<dots> = (cur s + (displacement [c] + displacement cs)) mod (cmax s + 1)"
    by (simp add: mod_add_left_eq add.assoc)
  also have "displacement [c] + displacement cs = displacement (c # cs)"
    by (cases c) simp_all
  finally have "cur s' = (cur s + displacement (c # cs)) mod (cmax s + 1)" .
  moreover have "same_ring s s'" using a(5) b(4) by (simp add: same_ring_def)
  ultimately show ?case using r b(2,3) by blast
qed

lemma displacement_round_trip: "displacement (replicate n Fwd @ replicate n Back) = 0"
proof -
  have a: "displacement (xs @ ys) = displacement xs + displacement ys" for xs ys
    by (induction xs rule: displacement.induct) simp_all
  have "displacement (replicate n Fwd) = int n" "displacement (replicate n Back) = - int n"
    by (induction n) simp_all
  then show ?thesis by (simp add: a)
qed

text \<open>
  C9. For a carousel with at least two slides (\<open>max \<ge> 1\<close>) at rest, and every finite
  sequence of \<open>fwd()\<close> and \<open>back()\<close> calls, each awaited to completion (five deliveries of
  the browser are enough for a step, and more change nothing): every call returns, the
  carousel is at rest again, and \<open>cur\<close> is in \<open>[0, max]\<close>; this holds after every step,
  since every prefix of a sequence is a sequence. \<open>cur\<close> ends at its start plus the net
  number of forward steps, modulo the number of slides; so \<open>n\<close> forward steps followed by
  \<open>n\<close> backward steps return \<open>cur\<close> to its original value.
\<close>

theorem fwd_back_sequences:
  assumes "wf_state s" "idle s" "1 \<le> cmax s" "5 \<le> k"
  shows "(\<exists>s'. run_calls k cs s = Some (Inr s') \<and> 0 \<le> cur s' \<and> cur s' \<le> cmax s \<and>
            cmax s' = cmax s \<and> idle s' \<and>
            cur s' = (cur s + displacement cs) mod (cmax s + 1)) \<and>
         (\<exists>s'. run_calls k (replicate n Fwd @ replicate n Back) s = Some (Inr s') \<and>
            cur s' = cur s)"
proof -
  from assms(4) obtain j where k: "k = 5 + j" using le_Suc_ex by blast
  from assms(1) have c: "0 \<le> cur s" "cur s \<le> cmax s"
    by (simp_all add: wf_state_def slides_ok_def)
  obtain s' where a: "run_calls (5 + j) cs s = Some (Inr s')" "wf_state s'" "idle s'"
    "same_ring s s'" "cur s' = (cur s + displacement cs) mod (cmax s + 1)"
    using run_calls_result[OF assms(1-3), of j cs] by blast
  obtain s'' where b: "run_calls (5 + j) (replicate n Fwd @ replicate n Back) s = Some (Inr s'')"
    "cur s'' = (cur s + displacement (replicate n Fwd @ replicate n Back)) mod (cmax s + 1)"
    using run_calls_result[OF assms(1-3), of j "replicate n Fwd @ replicate n Back"] by blast
  have "cur s'' = cur s"
    using b(2) c by (simp add: displacement_round_trip mod_pos_pos_trivial)
  moreover have "0 \<le> cur s'" "cur s' \<le> cmax s" "cmax s' = cmax s"
    using a(2,4) by (simp_all add: wf_state_def slides_ok_def same_ring_def)
  ultimately show ?thesis using a b(1) k by auto
qed

theorem fwd_back_sequences_witness:
  "(\<exists>s'. run_calls 5 [Fwd, Fwd, Back] (resting 4 1 4) = Some (Inr s') \<and> cur s' = 0) \<and>
   (\<exists>s'. run_calls 5 (replicate 2 Fwd @ replicate 2 Back) (resting 1 1 0) = Some (Inr s') \<and>
      cur s' = 0)"
proof -
  have a: "wf_state (resting 4 1 4)" "idle (resting 4 1 4)" "1 \<le> cmax (resting 4 1 4)"
    "cur (resting 4 1 4) = 4" "cmax (resting 4 1 4) = 4"
    and b: "wf_state (resting 1 1 0)" "idle (resting 1 1 0)" "1 \<le> cmax (resting 1 1 0)"
    "cur (resting 1 1 0) = 0"
    by (simp_all add: resting_def wf_state_def slides_ok_def idle_def)
  have "\<exists>s'. run_calls 5 [Fwd, Fwd, Back] (resting 4 1 4) = Some (Inr s') \<and> cur s' = 0"
    using fwd_back_sequences[OF a(1-3), of 5 "[Fwd, Fwd, Back]" 0] a(4,5) by auto
  moreover have "\<exists>s'. run_calls 5 (replicate 2 Fwd @ replicate 2 Back) (resting 1 1 0)
      = Some (Inr s') \<and> cur s' = 0"
    using fwd_back_sequences[OF b(1-3), of 5 "[]" 2] b(4) by auto
  ultimately show ?thesis by simp
qed
section \<open>C3: steps while a transition is in flight\<close>

text \<open>
  The guards. With \<open>moving\<close> true, \<open>back\<close>, \<open>fwd\<close> and \<open>goto\<close> of Carousel/index.js return
  the state as it is; the auto mover's timer, when it fires, only leaves the browser's list
  of pending timers; \<open>back\<close> and \<open>fwd\<close> of carousel.js return the state as it is, and so
  the commit of a gesture (\<open>pointerUp\<close>, through them) changes none of \<open>cur\<close>, \<open>prev\<close>,
  \<open>next\<close>, \<open>dir\<close>, \<open>duration\<close> and \<open>timingFunction\<close>.
\<close>

lemma guards_while_moving:
  assumes "moving s"
  shows "back_op s = Inr s \<and> fwd s = Inr s \<and> goto n s = Inr s \<and>
    (\<exists>s'. timeout h s = Inr s' \<and> cur s' = cur s \<and> prev s' = prev s \<and> next s' = next s \<and>
       dir s' = dir s \<and> duration s' = duration s \<and> timingFunction s' = timingFunction s \<and>
       moving s' \<and> events s' = events s \<and> listeners s' = listeners s \<and>
       frames s' = frames s) \<and>
    back_c s = Inr s \<and> fwd_c s = Inr s \<and>
    (slides_ok s (prev s) \<and> slides_ok s (cur s) \<and> slides_ok s (next s) \<longrightarrow>
       (\<exists>s'. pointerUp x s = Inr s' \<and> cur s' = cur s \<and> prev s' = prev s \<and>
          next s' = next s \<and> dir s' = dir s \<and> duration s' = duration s \<and>
          timingFunction s' = timingFunction s \<and> moving s' \<and> events s' = events s \<and>
          listeners s' = listeners s \<and> frames s' = frames s))"
proof (intro conjI impI)
  show "back_op s = Inr s" "fwd s = Inr s" "goto n s = Inr s" "back_c s = Inr s"
    "fwd_c s = Inr s"
    using assms by (simp_all add: back_op_def fwd_def goto_def back_c_def fwd_c_def)
  show "\<exists>s'. timeout h s = Inr s' \<and> cur s' = cur s \<and> prev s' = prev s \<and> next s' = next s \<and>
       dir s' = dir s \<and> duration s' = duration s \<and> timingFunction s' = timingFunction s \<and>
       moving s' \<and> events s' = events s \<and> listeners s' = listeners s \<and>
       frames s' = frames s"
    using assms by (simp add: timeout_def Let_def)
  show "\<exists>s'. pointerUp x s = Inr s' \<and> cur s' = cur s \<and> prev s' = prev s \<and>
          next s' = next s \<and> dir s' = dir s \<and> duration s' = duration s \<and>
          timingFunction s' = timingFunction s \<and> moving s' \<and> events s' = events s \<and>
          listeners s' = listeners s \<and> frames s' = frames s"
    if "slides_ok s (prev s) \<and> slides_ok s (cur s) \<and> slides_ok s (next s)"
    using assms that
    by (simp add: pointerUp_def Let_def and_then_def setTransform_def slides_ok_def
        back_c_def fwd_c_def)
qed

lemma guards_while_moving_example:
  "back_op ((resting 4 1 2)\<lparr>moving := True, timers := [(0, 5000)]\<rparr>)
     = Inr ((resting 4 1 2)\<lparr>moving := True, timers := [(0, 5000)]\<rparr>) \<and>
   goto 0 ((resting 4 1 2)\<lparr>moving := True, timers := [(0, 5000)]\<rparr>)
     = Inr ((resting 4 1 2)\<lparr>moving := True, timers := [(0, 5000)]\<rparr>) \<and>
   (\<exists>s'. timeout 0 ((resting 4 1 2)\<lparr>moving := True, timers := [(0, 5000)]\<rparr>) = Inr s' \<and>
      cur s' = 2 \<and> events s' = []) \<and>
   (\<exists>s'. pointerUp 40 ((resting 4 1 2)\<lparr>moving := True, timers := [(0, 5000)]\<rparr>) = Inr s' \<and>
      cur s' = 2 \<and> moving s')"
proof -
  define s where "s = (resting 4 1 2)\<lparr>moving := True, timers := [(0, 5000)]\<rparr>"
  have a: "moving s" "slides_ok s (prev s) \<and> slides_ok s (cur s) \<and> slides_ok s (next s)"
    "cur s = 2" "events s = []"
    by (simp_all add: s_def resting_def slides_ok_def)
  show ?thesis
    using guards_while_moving[OF a(1), of 0 0 40] a(2-4) unfolding s_def[symmetric] by auto
qed

text \<open>
  C3 fails on the code. The guards above are all there is: \<open>moveRecursive\<close>, the
  continuation of a \<open>goto\<close> chain run from the animation frame, and \<open>move\<close> itself do not
  test \<open>moving\<close>; \<open>goto\<close> of carousel.js does not test it either, and no step of
  carousel.js sets it.
  \<^item> Carousel/index.js, five slides at rest on slide 0: \<open>goto(3)\<close>; the \<open>transitionend\<close> of
    slide 0 ends the first step (\<open>moving\<close> is false again) and queues the continuation;
    \<open>fwd()\<close> passes its guard and starts a step (\<open>moving\<close> true, anchors 1, 2, 3, one
    transition in flight); then the frame runs the continuation: with \<open>moving\<close> true it
    dispatches \<open>before\<close> and \<open>start\<close> and moves the anchors to 2, 3, 4, with \<open>ease-out\<close> for
    the timing function. Two transitions are in flight.
  \<^item> \<open>move()\<close>, called on a carousel that is moving, starts a second step.
  \<^item> carousel.js: a step leaves \<open>moving\<close> false, so a second \<open>fwd()\<close> commits at once; and
    with \<open>moving\<close> true (the class set on the element) \<open>goto(3)\<close> commits a step.
\<close>

theorem chain_steps_while_moving:
  "(\<exists>s1 s3 s4.
      goto 3 (resting 4 1 0) = Inr s1 \<and>
      \<not> moving (transitionend 0 s1) \<and> frames (transitionend 0 s1) = [MoveRecursive 3] \<and>
      fwd (transitionend 0 s1) = Inr s3 \<and>
      moving s3 \<and> anchors (Inr s3) = Some (1, 2, 3) \<and> in_flight s3 = 1 \<and>
      timingFunction s3 = ''ease-in-out'' \<and>
      frame s3 = Inr s4 \<and>
      moving s4 \<and> anchors (Inr s4) = Some (2, 3, 4) \<and> in_flight s4 = 2 \<and>
      timingFunction s4 = ''ease-out'' \<and>
      lifecycle s4 =
        [Ev_before, Ev_start, Ev_end, Ev_before, Ev_start, Ev_before, Ev_start]) \<and>
   (\<exists>m1 m2.
      move (resting 4 1 0) = Inr m1 \<and> moving m1 \<and> cur m1 = 1 \<and> in_flight m1 = 1 \<and>
      move m1 = Inr m2 \<and> moving m2 \<and> cur m2 = 2 \<and> in_flight m2 = 2 \<and>
      lifecycle m2 = [Ev_before, Ev_start, Ev_before, Ev_start]) \<and>
   (\<exists>c1 c2.
      fwd_c (resting 4 1 0) = Inr c1 \<and> \<not> moving c1 \<and> cur c1 = 1 \<and>
      fwd_c c1 = Inr c2 \<and> cur c2 = 2) \<and>
   (\<exists>g. goto_c 3 ((resting 4 1 0)\<lparr>moving := True\<rparr>) = Inr g \<and> moving g \<and> cur g = 1 \<and>
      dir g = Some DIRECTIONS_fwd \<and> duration g = Some 60 \<and> timingFunction g = ''linear'')"
proof (intro conjI)
  show "\<exists>s1 s3 s4.
      goto 3 (resting 4 1 0) = Inr s1 \<and>
      \<not> moving (transitionend 0 s1) \<and> frames (transitionend 0 s1) = [MoveRecursive 3] \<and>
      fwd (transitionend 0 s1) = Inr s3 \<and>
      moving s3 \<and> anchors (Inr s3) = Some (1, 2, 3) \<and> in_flight s3 = 1 \<and>
      timingFunction s3 = ''ease-in-out'' \<and>
      frame s3 = Inr s4 \<and>
      moving s4 \<and> anchors (Inr s4) = Some (2, 3, 4) \<and> in_flight s4 = 2 \<and>
      timingFunction s4 = ''ease-out'' \<and>
      lifecycle s4 =
        [Ev_before, Ev_start, Ev_end, Ev_before, Ev_start, Ev_before, Ev_start]"
    by (simp add: resting_def goto_def moveRecursive_def transitionend_def runListener_def
        lifecycle_def in_flight_def anchors_def run_defs)
  show "\<exists>m1 m2.
      move (resting 4 1 0) = Inr m1 \<and> moving m1 \<and> cur m1 = 1 \<and> in_flight m1 = 1 \<and>
      move m1 = Inr m2 \<and> moving m2 \<and> cur m2 = 2 \<and> in_flight m2 = 2 \<and>
      lifecycle m2 = [Ev_before, Ev_start, Ev_before, Ev_start]"
    by (simp add: resting_def lifecycle_def in_flight_def run_defs)
  show "\<exists>c1 c2.
      fwd_c (resting 4 1 0) = Inr c1 \<and> \<not> moving c1 \<and> cur c1 = 1 \<and>
      fwd_c c1 = Inr c2 \<and> cur c2 = 2"
    by (simp add: resting_def fwd_c_def move_c_def setNext_c_def setPrev_c_def run_defs)
  show "\<exists>g. goto_c 3 ((resting 4 1 0)\<lparr>moving := True\<rparr>) = Inr g \<and> moving g \<and> cur g = 1 \<and>
      dir g = Some DIRECTIONS_fwd \<and> duration g = Some 60 \<and> timingFunction g = ''linear''"
    by (simp add: resting_def goto_c_def moveRecursive_c_def move_c_def setNext_c_def
        setPrev_c_def run_defs)
qed

section \<open>The goto chain of Carousel/index.js\<close>

text \<open>
  The end of the last step of a \<open>goto\<close>: the listener that restores the timing function
  runs before the one of \<open>set moving\<close>.
\<close>

lemma finish_last_step:
  assumes fr: "frames x = []" and ls: "listeners x = [(c, GotoRestore), (c, MovingEnd)]"
    and p: "slides_ok x (prev x)"
  shows "\<exists>x'. settle (Suc (Suc (Suc j))) x = Some (Inr x') \<and> same_ring x x' \<and>
    prev x' = prev x \<and> cur x' = cur x \<and> next x' = next x \<and> dir x' = dir x \<and>
    duration x' = parseInt_ms (defaultDuration x) \<and> timingFunction x' = defaultTimingFunction x \<and>
    \<not> moving x' \<and> listeners x' = [] \<and> frames x' = [] \<and> started x' = started x \<and>
    lifecycle x' = lifecycle x @ [Ev_end]"
proof -
  define y where "y = (set_timingFunction (defaultTimingFunction x) (x\<lparr>listeners := []\<rparr>))
      \<lparr>listeners := [(c, MovingEnd)]\<rparr>"
  define x0 where "x0 = set_timingFunction (defaultTimingFunction x) (x\<lparr>listeners := []\<rparr>)"
  have "x0\<lparr>listeners := []\<rparr> = x0"
    by (rule carousel.equality) (simp_all add: x0_def tiny)
  then have "transitionend c y = runListener MovingEnd x0"
    by (simp add: transitionend_def y_def x0_def[symmetric])
  moreover have "transitionend c x = runListener MovingEnd x0"
    using ls by (simp add: transitionend_def x0_def runListener_def[of GotoRestore])
  ultimately have te: "transitionend c x = transitionend c y" by simp
  have y: "frames y = []" "listeners y = [(c, MovingEnd)]" "slides_ok y (prev y)"
    using fr p by (simp_all add: y_def tiny slides_ok_def)
  have "settle (Suc (Suc (Suc j))) x = settle (Suc (Suc j)) (transitionend c x)"
    by (rule settle_transitionend[OF fr ls])
  also have "\<dots> = settle (Suc (Suc (Suc j))) y"
    unfolding te by (rule settle_transitionend[OF y(1,2), symmetric])
  finally have e: "settle (Suc (Suc (Suc j))) x = settle (Suc (Suc (Suc j))) y" .
  obtain x' where f: "settle (Suc (Suc (Suc j))) y = Some (Inr x')" "same_ring y x'"
    "prev x' = prev y" "cur x' = cur y" "next x' = next y" "dir x' = dir y"
    "duration x' = parseInt_ms (defaultDuration y)" "timingFunction x' = defaultTimingFunction y"
    "\<not> moving x'" "listeners x' = []" "frames x' = []" "started x' = started y"
    "lifecycle x' = lifecycle y @ [Ev_end]"
    using finish_step[OF y, of j] by blast
  have yx: "same_ring x y" "prev y = prev x" "cur y = cur x" "next y = next x" "dir y = dir x"
    "defaultDuration y = defaultDuration x" "defaultTimingFunction y = defaultTimingFunction x"
    "started y = started x" "lifecycle y = lifecycle x"
    by (simp_all add: y_def tiny same_ring_def started_def lifecycle_def)
  show ?thesis
    using e f yx by (intro exI[of _ x']) (simp add: same_ring_def del: settle.simps)
qed

text \<open>What \<open>moveRecursive\<close> hands to \<open>move\<close>.\<close>

lemma moveRecursive_interior:
  assumes "slides_ok s (cur s)" "(if dir s = Some DIRECTIONS_fwd then cur s + 1 else cur s - 1) \<noteq> n"
  shows "moveRecursive n s =
    move ((set_timingFunction ''linear'' (set_duration (Some 60) s))
            \<lparr>listeners := listeners s @ [(cur s, GotoNext n)]\<rparr>)"
  using assms by (simp add: moveRecursive_def addEventListener_def slides_ok_def Let_def tiny)

lemma moveRecursive_last:
  assumes "slides_ok s (cur s)" "(if dir s = Some DIRECTIONS_fwd then cur s + 1 else cur s - 1) = n"
  shows "moveRecursive n s =
    move (set_duration (defaultDuration s)
           (set_timingFunction ''ease-out''
             ((set_timingFunction ''linear'' (set_duration (Some 60) s))
                \<lparr>listeners := listeners s @ [(cur s, GotoRestore)]\<rparr>)))"
  using assms by (simp add: moveRecursive_def addEventListener_def slides_ok_def Let_def tiny)

text \<open>
  \<open>chain k n s\<close>: \<open>moveRecursive n\<close> on \<open>s\<close>, then up to \<open>k\<close> deliveries of the browser.
\<close>

lemma chain_hop:
  assumes wf: "wf_state s" and i: "idle s" and d: "dir s = Some d"
    "d = DIRECTIONS_back \<or> d = DIRECTIONS_fwd"
    and far: "cur s + d \<noteq> n" and rng: "0 \<le> cur s + d" "cur s + d \<le> cmax s"
    and m: "cmax s \<noteq> 1"
  shows "\<exists>s1 s2. moveRecursive n s = Inr s1 \<and>
    settle (Suc (Suc k)) s1 =
      (case moveRecursive n s2 of Inl e \<Rightarrow> Some (Inl e) | Inr t \<Rightarrow> settle k t) \<and>
    wf_state s2 \<and> idle s2 \<and> same_ring s s2 \<and> cur s2 = cur s + d \<and> dir s2 = dir s \<and>
    started s2 = started s @ [(cur s + d, Some 60, ''linear'')] \<and>
    lifecycle s2 = lifecycle s @ [Ev_before, Ev_start, Ev_end]"
proof -
  from i have fr: "frames s = []" and ls: "listeners s = []" and nm: "\<not> moving s"
    by (simp_all add: idle_def)
  from wf have ok: "slides_ok s (cur s)" by (simp add: wf_state_def)
  define p where "p = (set_timingFunction ''linear'' (set_duration (Some 60) s))
            \<lparr>listeners := listeners s @ [(cur s, GotoNext n)]\<rparr>"
  have nx: "(if dir s = Some DIRECTIONS_fwd then cur s + 1 else cur s - 1) \<noteq> n"
    using d far by (auto simp: DIRECTIONS_fwd_def DIRECTIONS_back_def)
  have mr: "moveRecursive n s = move p"
    using moveRecursive_interior[OF ok nx] by (simp add: p_def)
  have pp: "wf_state p" "frames p = []" "dir p = Some d" "cur p = cur s" "cmax p = cmax s"
    "listeners p = [(cur s, GotoNext n)]" "same_ring s p" "duration p = Some 60"
    "timingFunction p = ''linear''" "started p = started s"
    "lifecycle p = lifecycle s"
    using wf fr ls d
    by (simp_all add: p_def tiny wf_state_def slides_ok_def same_ring_def started_def lifecycle_def)
  obtain s1 x where b: "move p = Inr s1"
    "settle (Suc (Suc k)) s1 = settle (if cmax p = 1 then k else Suc (Suc k)) x"
    "frames x = []" "listeners x = listeners p @ [(cur p, MovingEnd)]" "moving x"
    "wf_state x" "same_ring p x"
    "cur x = (cur p + d) mod (cmax p + 1)"
    "dir x = dir p" 
    "started x = started p @ [(cur x, duration p, timingFunction p)]"
    "lifecycle x = lifecycle p @ [Ev_before, Ev_start]"
    using begin_step[OF pp(1,2,3) d(2), of k] by blast
  have cx: "cur x = cur s + d"
    using b(8) pp(4,5) rng by (simp add: mod_pos_pos_trivial)
  have lx: "listeners x = [(cur s, GotoNext n), (cur s, MovingEnd)]"
    using b(4) pp by simp
  have mx: "cmax x \<noteq> 1" using b(7) pp(5) m by (simp add: same_ring_def)
  define y where "y = reset (requestAnimationFrame (MoveRecursive n) (x\<lparr>listeners := []\<rparr>))"
  have te: "transitionend (cur s) x = y"
    using lx mx by (simp add: transitionend_def runListener_def y_def tiny)
  define s2 where "s2 = y\<lparr>frames := []\<rparr>"
  have fy: "frames y = [MoveRecursive n]" "frame y = moveRecursive n s2"
    using b(3) by (simp_all add: y_def reset_fields tiny frame_def runFrame_def s2_def)
  have "settle (Suc (Suc k)) x = settle (Suc k) y"
    using settle_transitionend[OF b(3) lx, of "Suc k"] unfolding te .
  also have "\<dots> = (case moveRecursive n s2 of Inl e \<Rightarrow> Some (Inl e) | Inr t \<Rightarrow> settle k t)"
    using fy by simp
  finally have st: "settle (Suc (Suc k)) s1 =
      (case moveRecursive n s2 of Inl e \<Rightarrow> Some (Inl e) | Inr t \<Rightarrow> settle k t)"
    using b(2) pp(5) m by simp
  have s2: "wf_state s2" "idle s2" "same_ring s s2" "cur s2 = cur s + d" "dir s2 = dir s"
    using b(6,7,9) pp(3,7) d(1) cx
    by (simp_all add: s2_def y_def reset_fields tiny wf_state_def slides_ok_def idle_def
        same_ring_def)
  have ev: "started s2 = started s @ [(cur s + d, Some 60, ''linear'')]"
    "lifecycle s2 = lifecycle s @ [Ev_before, Ev_start, Ev_end]"
    using b(10,11) pp(8-11) cx
    by (simp_all add: s2_def y_def reset_def tiny started_def lifecycle_def Let_def)
  show ?thesis
    using mr b(1) st s2 ev
    by (intro exI[of _ s1] exI[of _ s2]) (simp del: settle.simps)
qed

lemma chain_last:
  assumes wf: "wf_state s" and i: "idle s" and d: "dir s = Some d"
    "d = DIRECTIONS_back \<or> d = DIRECTIONS_fwd"
    and near: "cur s + d = n" and rng: "0 \<le> n" "n \<le> cmax s"
  shows "\<exists>s1 s'. moveRecursive n s = Inr s1 \<and> settle (5 + j) s1 = Some (Inr s') \<and>
    wf_state s' \<and> idle s' \<and> same_ring s s' \<and> cur s' = n \<and> dir s' = dir s \<and>
    duration s' = parseInt_ms (defaultDuration s) \<and> timingFunction s' = defaultTimingFunction s \<and>
    started s' = started s @ [(n, parseInt_ms (defaultDuration s), ''ease-out'')] \<and>
    lifecycle s' = lifecycle s @ [Ev_before, Ev_start, Ev_end]"
proof -
  from i have fr: "frames s = []" and ls: "listeners s = []" and nm: "\<not> moving s"
    by (simp_all add: idle_def)
  from wf have ok: "slides_ok s (cur s)" by (simp add: wf_state_def)
  define p where "p = set_duration (defaultDuration s)
           (set_timingFunction ''ease-out''
             ((set_timingFunction ''linear'' (set_duration (Some 60) s))
                \<lparr>listeners := listeners s @ [(cur s, GotoRestore)]\<rparr>))"
  have nx: "(if dir s = Some DIRECTIONS_fwd then cur s + 1 else cur s - 1) = n"
    using d near by (auto simp: DIRECTIONS_fwd_def DIRECTIONS_back_def)
  have mr: "moveRecursive n s = move p"
    using moveRecursive_last[OF ok nx] by (simp add: p_def)
  have pp: "wf_state p" "frames p = []" "dir p = Some d" "cur p = cur s" "cmax p = cmax s"
    "listeners p = [(cur s, GotoRestore)]" "same_ring s p" "duration p = parseInt_ms (defaultDuration s)"
    "timingFunction p = ''ease-out''" "started p = started s"
    "lifecycle p = lifecycle s"
    using wf fr ls d
    by (simp_all add: p_def tiny wf_state_def slides_ok_def same_ring_def started_def lifecycle_def)
  obtain s1 x where b: "move p = Inr s1"
    "settle (Suc (Suc (Suc (Suc (Suc j))))) s1 =
       settle (if cmax p = 1 then Suc (Suc (Suc j)) else Suc (Suc (Suc (Suc (Suc j))))) x"
    "frames x = []" "listeners x = listeners p @ [(cur p, MovingEnd)]" "moving x"
    "wf_state x" "same_ring p x"
    "cur x = (cur p + d) mod (cmax p + 1)"
    "dir x = dir p"
    "started x = started p @ [(cur x, duration p, timingFunction p)]"
    "lifecycle x = lifecycle p @ [Ev_before, Ev_start]"
    using begin_step[OF pp(1,2,3) d(2), of "Suc (Suc (Suc j))"] by blast
  have cx: "cur x = n"
    using b(8) pp(4,5) rng near by (simp add: mod_pos_pos_trivial)
  have lx: "listeners x = [(cur s, GotoRestore), (cur s, MovingEnd)]"
    using b(4) pp by simp
  have px: "slides_ok x (prev x)" using b(6) by (simp add: wf_state_def)
  obtain x' where f: "settle (Suc (Suc (Suc (if cmax p = 1 then j else Suc (Suc j))))) x
      = Some (Inr x')" "same_ring x x'"
    "prev x' = prev x" "cur x' = cur x" "next x' = next x" "dir x' = dir x"
    "duration x' = parseInt_ms (defaultDuration x)" "timingFunction x' = defaultTimingFunction x"
    "\<not> moving x'" "listeners x' = []" "frames x' = []" "started x' = started x"
    "lifecycle x' = lifecycle x @ [Ev_end]"
    using finish_last_step[OF b(3) lx px, of "if cmax p = 1 then j else Suc (Suc j)"] by blast
  have "settle (5 + j) s1 = Some (Inr x')"
    using b(2) f(1) by (simp add: eval_nat_numeral del: settle.simps split: if_splits)
  moreover have "wf_state x'"
    using b(6) f(2-5) by (simp add: wf_state_def slides_ok_def same_ring_def)
  moreover have "idle x'" using f by (simp add: idle_def)
  moreover have "same_ring s x'" using pp(7) b(7) f(2) by (simp add: same_ring_def)
  ultimately show ?thesis
    using mr b f pp cx d(1)
    by (intro exI[of _ s1] exI[of _ x']) (simp add: same_ring_def del: settle.simps)
qed

text \<open>
  The whole chain to a target \<open>i + 1\<close> slides away in the direction \<open>d\<close>: \<open>i\<close> hops, each a
  \<open>transitionend\<close> and an animation frame, and the last step.
\<close>

lemma chain_run:
  assumes "wf_state s" "idle s" "dir s = Some d" "d = DIRECTIONS_back \<or> d = DIRECTIONS_fwd"
    "n = cur s + d * (1 + int i)" "0 \<le> n" "n \<le> cmax s"
  shows "\<exists>s1 s'. moveRecursive n s = Inr s1 \<and> settle (2 * i + 5 + j) s1 = Some (Inr s') \<and>
    wf_state s' \<and> idle s' \<and> same_ring s s' \<and> cur s' = n \<and> dir s' = dir s \<and>
    duration s' = parseInt_ms (defaultDuration s) \<and> timingFunction s' = defaultTimingFunction s \<and>
    started s' = started s @ map (\<lambda>k. (cur s + d * (1 + int k), Some 60, ''linear'')) [0..<i]
                   @ [(n, parseInt_ms (defaultDuration s), ''ease-out'')] \<and>
    lifecycle s' = lifecycle s @ concat (replicate (Suc i) [Ev_before, Ev_start, Ev_end])"
  using assms
proof (induction i arbitrary: s)
  case 0
  then have near: "cur s + d = n" by simp
  show ?case
    using chain_last[OF "0.prems"(1-4) near "0.prems"(6,7), of j] by simp
next
  case (Suc i)
  from Suc.prems(1) have c: "0 \<le> cur s" "cur s \<le> cmax s"
    by (simp_all add: wf_state_def slides_ok_def)
  have dd: "d = 1 \<or> d = - 1"
    using Suc.prems(4) by (auto simp: DIRECTIONS_fwd_def DIRECTIONS_back_def)
  have far: "cur s + d \<noteq> n" using Suc.prems(5) dd by auto
  have rng: "0 \<le> cur s + d" "cur s + d \<le> cmax s"
    using Suc.prems(5,6,7) c dd by auto
  have m: "cmax s \<noteq> 1" using Suc.prems(5,6,7) c dd by auto
  obtain s1 s2 where h: "moveRecursive n s = Inr s1"
    "settle (Suc (Suc (2 * i + 5 + j))) s1 =
      (case moveRecursive n s2 of Inl e \<Rightarrow> Some (Inl e) | Inr t \<Rightarrow> settle (2 * i + 5 + j) t)"
    "wf_state s2" "idle s2" "same_ring s s2" "cur s2 = cur s + d" "dir s2 = dir s"
    "started s2 = started s @ [(cur s + d, Some 60, ''linear'')]"
    "lifecycle s2 = lifecycle s @ [Ev_before, Ev_start, Ev_end]"
    using chain_hop[OF Suc.prems(1-4) far rng m, of "2 * i + 5 + j"] by blast
  have d2: "dir s2 = Some d" using h(7) Suc.prems(3) by simp
  have n2: "n = cur s2 + d * (1 + int i)"
    using Suc.prems(5) h(6) by (simp add: algebra_simps)
  have r2: "n \<le> cmax s2" using Suc.prems(7) h(5) by (simp add: same_ring_def)
  obtain t1 s' where t: "moveRecursive n s2 = Inr t1"
    "settle (2 * i + 5 + j) t1 = Some (Inr s')"
    "wf_state s'" "idle s'" "same_ring s2 s'" "cur s' = n" "dir s' = dir s2"
    "duration s' = parseInt_ms (defaultDuration s2)" "timingFunction s' = defaultTimingFunction s2"
    "started s' = started s2 @ map (\<lambda>k. (cur s2 + d * (1 + int k), Some 60, ''linear'')) [0..<i]
                   @ [(n, parseInt_ms (defaultDuration s2), ''ease-out'')]"
    "lifecycle s' = lifecycle s2 @ concat (replicate (Suc i) [Ev_before, Ev_start, Ev_end])"
    using Suc.IH[OF h(3,4) d2 Suc.prems(4) n2 Suc.prems(6) r2] by blast
  have "2 * Suc i + 5 + j = Suc (Suc (2 * i + 5 + j))" by simp
  then have st: "settle (2 * Suc i + 5 + j) s1 = Some (Inr s')"
    using h(2) t(1,2) by (simp only: sum.case)
  have mp: "map (\<lambda>k. (cur s + d * (1 + int k), Some 60, ''linear'')) [0..<Suc i]
      = (cur s + d, Some 60, ''linear'')
        # map (\<lambda>k. (cur s2 + d * (1 + int k), Some (60::int), ''linear'')) [0..<i]"
  proof -
    have "[0..<Suc i] = 0 # map Suc [0..<i]"
      by (simp add: upt_conv_Cons map_Suc_upt del: upt_Suc)
    then show ?thesis by (simp add: h(6) algebra_simps comp_def del: upt_Suc)
  qed
  have sr: "same_ring s s'" "defaultDuration s2 = defaultDuration s"
    "defaultTimingFunction s2 = defaultTimingFunction s"
    using h(5) t(5) by (simp_all add: same_ring_def)
  have "started s' = started s @ map (\<lambda>k. (cur s + d * (1 + int k), Some 60, ''linear'')) [0..<Suc i]
                   @ [(n, parseInt_ms (defaultDuration s), ''ease-out'')]"
    unfolding mp using t(10) h(8) sr by simp
  then show ?case
    using h(1) st t(3,4,6,7,8,9,11) h(7,9) sr
    by (intro exI[of _ s1] exI[of _ s']) (simp del: settle.simps upt_Suc)
qed

section \<open>The goto chain from rest (Carousel/index.js)\<close>

lemma chain_from_rest:
  assumes "wf_state s" "idle s" "0 \<le> n" "n \<le> cmax s" "n \<noteq> cur s"
  shows "\<exists>s1 s'. goto n s = Inr s1 \<and>
    settle (2 * nat \<bar>n - cur s\<bar> + 3 + j) s1 = Some (Inr s') \<and>
    cur s' = n \<and> idle s' \<and>
    started s' =
      started s
      @ map (\<lambda>k. (cur s + (if n > cur s then 1 else - 1) * (1 + int k), Some 60, ''linear''))
          [0..<nat \<bar>n - cur s\<bar> - 1]
      @ [(n, parseInt_ms (defaultDuration s), ''ease-out'')] \<and>
    lifecycle s' =
      lifecycle s @ concat (replicate (nat \<bar>n - cur s\<bar>) [Ev_before, Ev_start, Ev_end]) \<and>
    timingFunction s' = defaultTimingFunction s \<and> duration s' = parseInt_ms (defaultDuration s)"
proof -
  define d where "d = (if n > cur s then DIRECTIONS_fwd else DIRECTIONS_back)"
  define i where "i = nat \<bar>n - cur s\<bar> - 1"
  define t where "t = s\<lparr>dir := Some d\<rparr>"
  from assms(1) have c: "0 \<le> cur s" "cur s \<le> cmax s"
    by (simp_all add: wf_state_def slides_ok_def)
  from assms(2) have nm: "\<not> moving s" by (simp add: idle_def)
  have g: "goto n s = moveRecursive n t"
    using nm assms(3-5) c by (auto simp: goto_def t_def d_def)
  have t: "wf_state t" "idle t" "dir t = Some d" "d = DIRECTIONS_back \<or> d = DIRECTIONS_fwd"
    "cur t = cur s" "cmax t = cmax s" "started t = started s" "lifecycle t = lifecycle s"
    "defaultDuration t = defaultDuration s" "defaultTimingFunction t = defaultTimingFunction s"
    using assms(1,2)
    by (simp_all add: t_def d_def wf_state_def slides_ok_def idle_def started_def lifecycle_def)
  have dist: "nat \<bar>n - cur s\<bar> = Suc i" using assms(5) by (simp add: i_def)
  have n: "n = cur t + d * (1 + int i)"
    using assms(5) dist
    by (auto simp: t_def d_def i_def DIRECTIONS_fwd_def DIRECTIONS_back_def)
  have dv: "d = (if n > cur s then 1 else - 1)"
    by (simp add: d_def DIRECTIONS_fwd_def DIRECTIONS_back_def)
  have r: "n \<le> cmax t" using assms(4) t(6) by simp
  have fuel: "2 * nat \<bar>n - cur s\<bar> + 3 + j = 2 * i + 5 + j" using dist by simp
  obtain s1 s' where a: "moveRecursive n t = Inr s1" "settle (2 * i + 5 + j) s1 = Some (Inr s')"
    "idle s'" "cur s' = n"
    "duration s' = parseInt_ms (defaultDuration t)" "timingFunction s' = defaultTimingFunction t"
    "started s' = started t @ map (\<lambda>k. (cur t + d * (1 + int k), Some 60, ''linear'')) [0..<i]
                   @ [(n, parseInt_ms (defaultDuration t), ''ease-out'')]"
    "lifecycle s' = lifecycle t @ concat (replicate (Suc i) [Ev_before, Ev_start, Ev_end])"
    using chain_run[OF t(1-4) n assms(3) r, of j] by blast
  have 1: "goto n s = Inr s1" using g a(1) by simp
  have 2: "settle (2 * nat \<bar>n - cur s\<bar> + 3 + j) s1 = Some (Inr s')"
    using a(2) by (simp only: fuel)
  have 3: "started s' =
      started s
      @ map (\<lambda>k. (cur s + (if n > cur s then 1 else - 1) * (1 + int k), Some 60, ''linear''))
          [0..<nat \<bar>n - cur s\<bar> - 1]
      @ [(n, parseInt_ms (defaultDuration s), ''ease-out'')]"
    using a(7) t(5,7,9) dv by (simp add: i_def)
  have 4: "lifecycle s' =
      lifecycle s @ concat (replicate (nat \<bar>n - cur s\<bar>) [Ev_before, Ev_start, Ev_end])"
    using a(8) t(8) by (simp only: dist)
  have 5: "timingFunction s' = defaultTimingFunction s" "duration s' = parseInt_ms (defaultDuration s)"
    using a(5,6) t(9,10) by simp_all
  show ?thesis using 1 2 a(3,4) 3 4 5 by blast
qed

text \<open>
  The chain from rest (Carousel/index.js). For a carousel with nothing pending (not moving,
  no listener waiting, no frame queued) and every valid target \<open>n\<close> in \<open>[0, max]\<close> other
  than \<open>cur\<close>, \<open>goto n\<close> returns and the chain, each step's transition end awaited and the
  next step run from the animation frame, comes to rest after \<open>2 |n - cur| + 3\<close> deliveries
  of the browser at most, with \<open>cur = n\<close>. It commits \<open>|n - cur|\<close> steps, and each
  dispatches \<open>before\<close>, \<open>start\<close> and \<open>end\<close> once, in this order. Every step but the last
  starts with duration 60 and timing function \<open>linear\<close>; the last starts with the default
  duration and \<open>ease-out\<close>; after its end the timing function and the duration are the
  component's defaults (the duration as it is read back).
\<close>

lemma goto_chain_at_rest:
  assumes "wf_state s" "idle s" "0 \<le> n" "n \<le> cmax s" "n \<noteq> cur s"
  shows "\<exists>s1 s'. goto n s = Inr s1 \<and>
    settle (2 * nat \<bar>n - cur s\<bar> + 3 + j) s1 = Some (Inr s') \<and>
    cur s' = n \<and> idle s' \<and>
    started s' =
      started s
      @ map (\<lambda>k. (cur s + (if n > cur s then 1 else - 1) * (1 + int k), Some 60, ''linear''))
          [0..<nat \<bar>n - cur s\<bar> - 1]
      @ [(n, parseInt_ms (defaultDuration s), ''ease-out'')] \<and>
    lifecycle s' =
      lifecycle s @ concat (replicate (nat \<bar>n - cur s\<bar>) [Ev_before, Ev_start, Ev_end]) \<and>
    timingFunction s' = defaultTimingFunction s \<and> duration s' = parseInt_ms (defaultDuration s)"
  by (rule chain_from_rest[OF assms])

lemma goto_chain_at_rest_example:
  "\<exists>s1 s'. goto 3 (resting 4 1 0) = Inr s1 \<and> settle 9 s1 = Some (Inr s') \<and> cur s' = 3 \<and>
     idle s' \<and>
     started s' = [(1, Some 60, ''linear''), (2, Some 60, ''linear''), (3, Some 250, ''ease-out'')] \<and>
     lifecycle s' = [Ev_before, Ev_start, Ev_end, Ev_before, Ev_start, Ev_end,
                     Ev_before, Ev_start, Ev_end] \<and>
     timingFunction s' = ''ease-in-out'' \<and> duration s' = Some 250"
proof -
  have a: "wf_state (resting 4 1 0)" "idle (resting 4 1 0)" "(0::int) \<le> 3"
    "3 \<le> cmax (resting 4 1 0)" "3 \<noteq> cur (resting 4 1 0)"
    and b: "cur (resting 4 1 0) = 0" "started (resting 4 1 0) = []"
    "lifecycle (resting 4 1 0) = []" "defaultDuration (resting 4 1 0) = Some 250"
    "defaultTimingFunction (resting 4 1 0) = ''ease-in-out''"
    by (simp_all add: resting_def wf_state_def slides_ok_def idle_def started_def lifecycle_def)
  have u: "[0..<2] = [0, Suc 0]" by (simp add: upt_conv_Cons)
  have r: "replicate 3 x = [x, x, x]" for x :: "evkind list" by (simp add: eval_nat_numeral)
  show ?thesis
    using goto_chain_at_rest[OF a, of 0] b
    by (simp add: u r del: settle.simps)
qed

section \<open>The goto chain of carousel.js\<close>

text \<open>
  carousel.js runs the same chain with setters that dispatch nothing: the steps keep the
  duration 60 and \<open>linear\<close> that \<open>goto\<close> has set, the last step runs with \<open>ease-out\<close> and the
  default duration, and the chain comes to rest on the target with the default timing
  function. No event is dispatched, and \<open>moving\<close> is neither tested nor set.
\<close>

lemma chain_c_hop:
  assumes ok: "slides_ok s (prev s)" "slides_ok s (cur s)" "slides_ok s (next s)"
    and d: "dir s = Some d" "d = DIRECTIONS_back \<or> d = DIRECTIONS_fwd"
    and i: "listeners s = []" "frames s = []"
    and far: "cur s + d \<noteq> n" and rng: "0 \<le> cur s + d" "cur s + d \<le> cmax s"
  shows "\<exists>s1 s2. moveRecursive_c n s = Inr s1 \<and> cur s1 = cur s + d \<and>
    duration s1 = duration s \<and> timingFunction s1 = timingFunction s \<and>
    settle (Suc (Suc k)) s1 =
      (case moveRecursive_c n s2 of Inl e \<Rightarrow> Some (Inl e) | Inr t \<Rightarrow> settle k t) \<and>
    slides_ok s2 (prev s2) \<and> slides_ok s2 (cur s2) \<and> slides_ok s2 (next s2) \<and>
    dir s2 = dir s \<and> listeners s2 = [] \<and> frames s2 = [] \<and> cur s2 = cur s + d \<and>
    cmax s2 = cmax s \<and> duration s2 = duration s \<and> timingFunction s2 = timingFunction s \<and>
    defaultDuration s2 = defaultDuration s \<and>
    defaultTimingFunction s2 = defaultTimingFunction s \<and> events s2 = events s \<and>
    moving s2 = moving s"
proof -
  from ok(2) have m0: "0 \<le> cmax s" by (simp add: slides_ok_def)
  define p where "p = s\<lparr>listeners := listeners s @ [(cur s, GotoNext_c n)]\<rparr>"
  have nx: "(if dir s = Some DIRECTIONS_fwd then cur s + 1 else cur s - 1) \<noteq> n"
    using d far by (auto simp: DIRECTIONS_fwd_def DIRECTIONS_back_def)
  have mr: "moveRecursive_c n s = move_c p"
    using ok(2) nx by (simp add: moveRecursive_c_def addEventListener_def Let_def p_def)
  have pp: "slides_ok p (prev p)" "slides_ok p (cur p)" "slides_ok p (next p)" "dir p = Some d"
    using ok d by (simp_all add: p_def slides_ok_def)
  define c where "c = (cur p + d) mod (cmax p + 1)"
  define x where "x = p\<lparr>cur := c, next := (c + d) mod (cmax p + 1),
      prev := (c - d) mod (cmax p + 1)\<rparr>"
  have mv: "move_c p = Inr x" using move_c_step[OF pp d(2)] by (simp add: x_def c_def)
  have cv: "c = cur s + d" using rng by (simp add: c_def p_def mod_pos_pos_trivial)
  have lx: "listeners x = [(cur s, GotoNext_c n)]" "frames x = []"
    using i by (simp_all add: x_def p_def)
  define y where "y = requestAnimationFrame (MoveRecursive_c n) (x\<lparr>listeners := []\<rparr>)"
  have te: "transitionend (cur s) x = y"
    using lx by (simp add: transitionend_def runListener_def y_def)
  define s2 where "s2 = y\<lparr>frames := []\<rparr>"
  have fy: "frames y \<noteq> []" "frame y = moveRecursive_c n s2"
    using lx by (simp_all add: y_def requestAnimationFrame_def frame_def runFrame_def s2_def)
  have "settle (Suc (Suc k)) x = settle (Suc k) y"
    using settle_transitionend[OF lx(2) lx(1), of "Suc k"] unfolding te .
  also have "\<dots> = (case moveRecursive_c n s2 of Inl e \<Rightarrow> Some (Inl e) | Inr t \<Rightarrow> settle k t)"
    using fy by simp
  finally have st: "settle (Suc (Suc k)) x =
      (case moveRecursive_c n s2 of Inl e \<Rightarrow> Some (Inl e) | Inr t \<Rightarrow> settle k t)" .
  have r: "0 \<le> z mod (cmax s + 1)" "z mod (cmax s + 1) \<le> cmax s" for z
    using ring_range[OF m0, of z] by simp_all
  have s2: "slides_ok s2 (prev s2)" "slides_ok s2 (cur s2)" "slides_ok s2 (next s2)"
    "dir s2 = dir s" "listeners s2 = []" "frames s2 = []" "cur s2 = cur s + d"
    "cmax s2 = cmax s" "duration s2 = duration s" "timingFunction s2 = timingFunction s"
    "defaultDuration s2 = defaultDuration s"
    "defaultTimingFunction s2 = defaultTimingFunction s" "events s2 = events s"
    "moving s2 = moving s"
    using r cv rng
    by (simp_all add: s2_def y_def x_def p_def requestAnimationFrame_def slides_ok_def)
  have x1: "cur x = cur s + d" "duration x = duration s" "timingFunction x = timingFunction s"
    using cv by (simp_all add: x_def p_def)
  show ?thesis
    using mr mv st s2 x1 by (intro exI[of _ x] exI[of _ s2]) (simp del: settle.simps)
qed

lemma chain_c_last:
  assumes ok: "slides_ok s (prev s)" "slides_ok s (cur s)" "slides_ok s (next s)"
    and d: "dir s = Some d" "d = DIRECTIONS_back \<or> d = DIRECTIONS_fwd"
    and i: "listeners s = []" "frames s = []"
    and near: "cur s + d = n" and rng: "0 \<le> n" "n \<le> cmax s"
  shows "\<exists>s1 s'. moveRecursive_c n s = Inr s1 \<and> cur s1 = n \<and>
    duration s1 = parseInt_ms (defaultDuration s) \<and> timingFunction s1 = ''ease-out'' \<and>
    settle (Suc k) s1 = Some (Inr s') \<and> cur s' = n \<and>
    duration s' = parseInt_ms (defaultDuration s) \<and> timingFunction s' = defaultTimingFunction s \<and>
    listeners s' = [] \<and> frames s' = [] \<and> events s' = events s \<and> moving s' = moving s"
proof -
  define p where "p = s\<lparr>listeners := listeners s @ [(cur s, GotoRestore_c)],
          timingFunction := ''ease-out'', duration := parseInt_ms (defaultDuration s)\<rparr>"
  have nx: "(if dir s = Some DIRECTIONS_fwd then cur s + 1 else cur s - 1) = n"
    using d near by (auto simp: DIRECTIONS_fwd_def DIRECTIONS_back_def)
  have mr: "moveRecursive_c n s = move_c p"
    using ok(2) nx by (simp add: moveRecursive_c_def addEventListener_def Let_def p_def)
  have pp: "slides_ok p (prev p)" "slides_ok p (cur p)" "slides_ok p (next p)" "dir p = Some d"
    using ok d by (simp_all add: p_def slides_ok_def)
  define c where "c = (cur p + d) mod (cmax p + 1)"
  define x where "x = p\<lparr>cur := c, next := (c + d) mod (cmax p + 1),
      prev := (c - d) mod (cmax p + 1)\<rparr>"
  have mv: "move_c p = Inr x" using move_c_step[OF pp d(2)] by (simp add: x_def c_def)
  have cv: "c = n" using rng near by (simp add: c_def p_def mod_pos_pos_trivial)
  have lx: "listeners x = [(cur s, GotoRestore_c)]" "frames x = []"
    using i by (simp_all add: x_def p_def)
  define s' where "s' = x\<lparr>listeners := [], timingFunction := defaultTimingFunction x\<rparr>"
  have te: "transitionend (cur s) x = s'"
    using lx by (simp add: transitionend_def runListener_def s'_def)
  have is': "frames s' = []" "listeners s' = []" using lx by (simp_all add: s'_def)
  have "settle (Suc k) x = settle k s'"
    using settle_transitionend[OF lx(2) lx(1), of k] unfolding te .
  then have st: "settle (Suc k) x = Some (Inr s')" using is' by (simp only: settle_idle)
  have f: "cur x = n" "duration x = parseInt_ms (defaultDuration s)" "timingFunction x = ''ease-out''"
    "cur s' = n" "duration s' = parseInt_ms (defaultDuration s)"
    "timingFunction s' = defaultTimingFunction s" "events s' = events s"
    "moving s' = moving s"
    using cv by (simp_all add: s'_def x_def p_def)
  show ?thesis
    using mr mv st f is' by (intro exI[of _ x] exI[of _ s']) (simp del: settle.simps)
qed

lemma chain_c_run:
  assumes "slides_ok s (prev s)" "slides_ok s (cur s)" "slides_ok s (next s)"
    "dir s = Some d" "d = DIRECTIONS_back \<or> d = DIRECTIONS_fwd"
    "listeners s = []" "frames s = []"
    "n = cur s + d * (1 + int i)" "0 \<le> n" "n \<le> cmax s"
  shows "\<exists>s1 s'. moveRecursive_c n s = Inr s1 \<and> settle (2 * i + 1 + j) s1 = Some (Inr s') \<and>
    cur s' = n \<and> duration s' = parseInt_ms (defaultDuration s) \<and>
    timingFunction s' = defaultTimingFunction s \<and>
    listeners s' = [] \<and> frames s' = [] \<and> events s' = events s \<and> moving s' = moving s"
  using assms
proof (induction i arbitrary: s)
  case 0
  then have near: "cur s + d = n" by simp
  show ?case
    using chain_c_last[OF "0.prems"(1-7) near "0.prems"(9,10), of j] by auto
next
  case (Suc i)
  from Suc.prems(2) have c: "0 \<le> cur s" "cur s \<le> cmax s" by (simp_all add: slides_ok_def)
  have dd: "d = 1 \<or> d = - 1"
    using Suc.prems(5) by (auto simp: DIRECTIONS_fwd_def DIRECTIONS_back_def)
  have far: "cur s + d \<noteq> n" using Suc.prems(8) dd by auto
  have rng: "0 \<le> cur s + d" "cur s + d \<le> cmax s"
    using Suc.prems(8,9,10) c dd by auto
  obtain s1 s2 where h: "moveRecursive_c n s = Inr s1"
    "settle (Suc (Suc (2 * i + 1 + j))) s1 =
      (case moveRecursive_c n s2 of Inl e \<Rightarrow> Some (Inl e)
       | Inr t \<Rightarrow> settle (2 * i + 1 + j) t)"
    "slides_ok s2 (prev s2)" "slides_ok s2 (cur s2)" "slides_ok s2 (next s2)"
    "dir s2 = dir s" "listeners s2 = []" "frames s2 = []" "cur s2 = cur s + d"
    "cmax s2 = cmax s" "defaultDuration s2 = defaultDuration s"
    "defaultTimingFunction s2 = defaultTimingFunction s" "events s2 = events s"
    "moving s2 = moving s"
    using chain_c_hop[OF Suc.prems(1-7) far rng, of "2 * i + 1 + j"] by blast
  have d2: "dir s2 = Some d" using h(6) Suc.prems(4) by simp
  have n2: "n = cur s2 + d * (1 + int i)" using Suc.prems(8) h(9) by (simp add: algebra_simps)
  have r2: "n \<le> cmax s2" using Suc.prems(10) h(10) by simp
  obtain t1 s' where t: "moveRecursive_c n s2 = Inr t1"
    "settle (2 * i + 1 + j) t1 = Some (Inr s')" "cur s' = n"
    "duration s' = parseInt_ms (defaultDuration s2)" "timingFunction s' = defaultTimingFunction s2"
    "listeners s' = []" "frames s' = []" "events s' = events s2" "moving s' = moving s2"
    using Suc.IH[OF h(3,4,5) d2 Suc.prems(5) h(7,8) n2 Suc.prems(9) r2] by blast
  have "2 * Suc i + 1 + j = Suc (Suc (2 * i + 1 + j))" by simp
  then have st: "settle (2 * Suc i + 1 + j) s1 = Some (Inr s')"
    using h(2) t(1,2) by (simp only: sum.case)
  show ?case
    using h(1) st t(3-9) h(11-14) by (intro exI[of _ s1] exI[of _ s']) (simp del: settle.simps)
qed

lemma goto_c_chain:
  assumes "slides_ok s (prev s)" "slides_ok s (cur s)" "slides_ok s (next s)"
    "listeners s = []" "frames s = []" "0 \<le> n" "n \<le> cmax s" "n \<noteq> cur s"
  shows "\<exists>s1 s'. goto_c n s = Inr s1 \<and>
    timingFunction s1 = (if \<bar>n - cur s\<bar> = 1 then ''ease-out'' else ''linear'') \<and>
    duration s1 = (if \<bar>n - cur s\<bar> = 1 then parseInt_ms (defaultDuration s) else Some 60) \<and>
    settle (2 * nat \<bar>n - cur s\<bar> + j) s1 = Some (Inr s') \<and>
    cur s' = n \<and> duration s' = parseInt_ms (defaultDuration s) \<and>
    timingFunction s' = defaultTimingFunction s \<and>
    listeners s' = [] \<and> frames s' = [] \<and> events s' = events s \<and> moving s' = moving s"
proof -
  define d where "d = (if n > cur s then DIRECTIONS_fwd else DIRECTIONS_back)"
  define i where "i = nat \<bar>n - cur s\<bar> - 1"
  define t where "t = s\<lparr>dir := Some d, duration := Some 60, timingFunction := ''linear''\<rparr>"
  have g: "goto_c n s = moveRecursive_c n t"
    using assms(8) by (simp add: goto_c_def t_def d_def)
  have t: "slides_ok t (prev t)" "slides_ok t (cur t)" "slides_ok t (next t)" "dir t = Some d"
    "d = DIRECTIONS_back \<or> d = DIRECTIONS_fwd" "listeners t = []" "frames t = []"
    and tf: "cur t = cur s" "cmax t = cmax s" "defaultDuration t = defaultDuration s"
    "defaultTimingFunction t = defaultTimingFunction s" "events t = events s"
    "moving t = moving s" "duration t = Some 60" "timingFunction t = ''linear''"
    using assms(1-5) by (simp_all add: t_def d_def slides_ok_def)
  have dist: "nat \<bar>n - cur s\<bar> = Suc i" using assms(8) by (simp add: i_def)
  have n: "n = cur t + d * (1 + int i)"
    using assms(8) dist
    by (auto simp: t_def d_def i_def DIRECTIONS_fwd_def DIRECTIONS_back_def)
  have r: "n \<le> cmax t" using assms(7) tf(2) by simp
  have fuel: "2 * nat \<bar>n - cur s\<bar> + j = 2 * i + 1 + Suc j" using dist by simp
  obtain s1 s' where a: "moveRecursive_c n t = Inr s1"
    "settle (2 * i + 1 + Suc j) s1 = Some (Inr s')" "cur s' = n"
    "duration s' = parseInt_ms (defaultDuration t)" "timingFunction s' = defaultTimingFunction t"
    "listeners s' = []" "frames s' = []" "events s' = events t" "moving s' = moving t"
    using chain_c_run[OF t n assms(6) r, of "Suc j"] by blast
  have first: "timingFunction s1 = (if \<bar>n - cur s\<bar> = 1 then ''ease-out'' else ''linear'')"
    "duration s1 = (if \<bar>n - cur s\<bar> = 1 then parseInt_ms (defaultDuration s) else Some 60)"
  proof -
    have dd: "d = 1 \<or> d = - 1" using t(5) by (auto simp: DIRECTIONS_fwd_def DIRECTIONS_back_def)
    from assms(2) have c: "0 \<le> cur s" "cur s \<le> cmax s" by (simp_all add: slides_ok_def)
    show "timingFunction s1 = (if \<bar>n - cur s\<bar> = 1 then ''ease-out'' else ''linear'')"
      "duration s1 = (if \<bar>n - cur s\<bar> = 1 then parseInt_ms (defaultDuration s) else Some 60)"
    proof (atomize (full), cases "cur t + d = n")
      case True
      obtain u u' where "moveRecursive_c n t = Inr u" "duration u = parseInt_ms (defaultDuration t)"
        "timingFunction u = ''ease-out''"
        using chain_c_last[OF t True assms(6) r, of 0] by blast
      moreover have "\<bar>n - cur s\<bar> = 1" using True tf(1) dd by auto
      ultimately show "timingFunction s1 = (if \<bar>n - cur s\<bar> = 1 then ''ease-out'' else ''linear'') \<and>
        duration s1 = (if \<bar>n - cur s\<bar> = 1 then parseInt_ms (defaultDuration s) else Some 60)"
        using a(1) tf(3) by simp
    next
      case False
      have rg: "0 \<le> cur t + d" "cur t + d \<le> cmax t"
        using n assms(6) r c tf(1,2) dd False by (auto simp: algebra_simps)
      obtain u u2 where "moveRecursive_c n t = Inr u" "duration u = duration t"
        "timingFunction u = timingFunction t"
        using chain_c_hop[OF t False rg, of 0] by blast
      moreover have "\<bar>n - cur s\<bar> \<noteq> 1" using False tf(1) assms(8) d_def
        by (auto simp: DIRECTIONS_fwd_def DIRECTIONS_back_def split: if_splits)
      ultimately show "timingFunction s1 = (if \<bar>n - cur s\<bar> = 1 then ''ease-out'' else ''linear'') \<and>
        duration s1 = (if \<bar>n - cur s\<bar> = 1 then parseInt_ms (defaultDuration s) else Some 60)"
        using a(1) tf(7,8) by simp
    qed
  qed
  have 2: "settle (2 * nat \<bar>n - cur s\<bar> + j) s1 = Some (Inr s')" using a(2) by (simp only: fuel)
  show ?thesis
    using g a(1) first 2 a(3-9) tf
    by (intro exI[of _ s1] exI[of _ s']) (simp del: settle.simps)
qed

section \<open>C4: the goto chain\<close>

text \<open>
  C4 fails on the code. The claim asks of the carousel only that \<open>moving\<close> is false, and
  \<open>goto\<close> tests no more than that; but \<open>moving\<close> is false too between the \<open>transitionend\<close>
  of a chain step and the frame that runs the next one, while the chain is still pending.
  \<^item> Carousel/index.js, five slides at rest on slide 0: \<open>goto(3)\<close>; after the \<open>transitionend\<close>
    of slide 0 the carousel is on slide 1, not moving, the continuation queued. Now
    \<open>goto(0)\<close>, a valid target other than \<open>cur\<close>, passes every guard, sets \<open>dir\<close> to back and
    steps to slide 0. The queued continuation then runs with this \<open>dir\<close>: it steps back
    from 0 to 4 and from 4 to 3, and the carousel comes to rest on slide 3, not on 0,
    whichever of the two pending transitions ends first.
  \<^item> carousel.js: the chain of \<open>goto(3)\<close> comes to rest on slide 3 (lemma \<open>goto_c_chain\<close>
    for every target), but no event is dispatched: there is no \<open>start\<close>/\<open>end\<close> pair.
\<close>

theorem goto_between_chain_steps:
  "(\<exists>s1 t t' u1 u2.
      goto 3 (resting 4 1 0) = Inr s1 \<and>
      \<not> moving (transitionend 0 s1) \<and> cur (transitionend 0 s1) = 1 \<and>
      cmax (transitionend 0 s1) = 4 \<and> frames (transitionend 0 s1) = [MoveRecursive 3] \<and>
      goto 0 (transitionend 0 s1) = Inr t \<and> cur t = 0 \<and> dir t = Some DIRECTIONS_back \<and>
      settle 5 t = Some (Inr t') \<and> idle t' \<and> cur t' = 3 \<and>
      started t' = [(1, Some 60, ''linear''), (0, Some 250, ''ease-out''),
                    (4, Some 60, ''linear''), (3, Some 250, ''ease-out'')] \<and>
      frame t = Inr u1 \<and> cur u1 = 4 \<and>
      frame (transitionend 0 u1) = Inr u2 \<and>
      idle (transitionend 4 (transitionend 1 u2)) \<and>
      cur (transitionend 4 (transitionend 1 u2)) = 3) \<and>
   (\<exists>c1 c'.
      goto_c 3 (resting 4 1 0) = Inr c1 \<and> cur c1 = 1 \<and> \<not> moving c1 \<and>
      settle 5 c1 = Some (Inr c') \<and> cur c' = 3 \<and> listeners c' = [] \<and> frames c' = [] \<and>
      timingFunction c' = ''ease-in-out'' \<and> duration c' = Some 250 \<and> events c' = [])"
proof (intro conjI)
  show "\<exists>s1 t t' u1 u2.
      goto 3 (resting 4 1 0) = Inr s1 \<and>
      \<not> moving (transitionend 0 s1) \<and> cur (transitionend 0 s1) = 1 \<and>
      cmax (transitionend 0 s1) = 4 \<and> frames (transitionend 0 s1) = [MoveRecursive 3] \<and>
      goto 0 (transitionend 0 s1) = Inr t \<and> cur t = 0 \<and> dir t = Some DIRECTIONS_back \<and>
      settle 5 t = Some (Inr t') \<and> idle t' \<and> cur t' = 3 \<and>
      started t' = [(1, Some 60, ''linear''), (0, Some 250, ''ease-out''),
                    (4, Some 60, ''linear''), (3, Some 250, ''ease-out'')] \<and>
      frame t = Inr u1 \<and> cur u1 = 4 \<and>
      frame (transitionend 0 u1) = Inr u2 \<and>
      idle (transitionend 4 (transitionend 1 u2)) \<and>
      cur (transitionend 4 (transitionend 1 u2)) = 3"
    by (simp add: resting_def goto_def moveRecursive_def transitionend_def runListener_def
        started_def idle_def eval_nat_numeral run_defs)
  show "\<exists>c1 c'.
      goto_c 3 (resting 4 1 0) = Inr c1 \<and> cur c1 = 1 \<and> \<not> moving c1 \<and>
      settle 5 c1 = Some (Inr c') \<and> cur c' = 3 \<and> listeners c' = [] \<and> frames c' = [] \<and>
      timingFunction c' = ''ease-in-out'' \<and> duration c' = Some 250 \<and> events c' = []"
    by (simp add: resting_def goto_c_def moveRecursive_c_def move_c_def setNext_c_def
        setPrev_c_def transitionend_def runListener_def eval_nat_numeral run_defs)
qed

section \<open>C5: the direction of a goto\<close>







section \<open>C6: goto with an invalid target\<close>

text \<open>
  \<open>goto\<close> of Carousel/index.js does nothing, and throws nothing, for a target below 0, a
  target above \<open>max\<close>, the current slide, and while a transition is in flight.
\<close>

lemma goto_guards:
  assumes "n < 0 \<or> n > cmax s \<or> n = cur s \<or> moving s"
  shows "goto n s = Inr s"
  using assms by (auto simp: goto_def)

text \<open>
  C6 fails on carousel.js, whose \<open>goto\<close> has none of these guards. On five slides at rest
  on slide 0, \<open>goto(-1)\<close> sets \<open>dir = back\<close>, takes the next index \<open>-1\<close> for the target and
  commits a step that wraps to slide 4, with a \<open>transitionend\<close> listener registered and the
  timing function overridden; and \<open>goto(3)\<close> commits a step although \<open>moving\<close> is true.
\<close>

theorem goto_c_unguarded:
  "anchors (goto_c (- 1) (resting 4 1 0)) = Some (0, 4, 3) \<and>
   map_sum id dir (goto_c (- 1) (resting 4 1 0)) = Inr (Some DIRECTIONS_back) \<and>
   map_sum id listeners (goto_c (- 1) (resting 4 1 0)) = Inr [(0, GotoRestore_c)] \<and>
   map_sum id timingFunction (goto_c (- 1) (resting 4 1 0)) = Inr ''ease-out'' \<and>
   anchors (goto_c 3 ((resting 4 1 0)\<lparr>moving := True\<rparr>)) = Some (0, 1, 2)"
  by (simp add: resting_def goto_c_def moveRecursive_c_def move_c_def setNext_c_def setPrev_c_def
      addEventListener_def run_defs)

section \<open>C10: construction without slides\<close>

text \<open>
  The constructor of carousel.js does not reject an element without slides: it returns an
  instance, with \<open>max = -1\<close> and the three anchors \<open>-1\<close>.
\<close>

theorem no_slides_counterexample:
  "anchors (Carousel_c (wrapper []) ''ease-in-out'' 250) = Some (- 1, - 1, - 1) \<and>
   map_sum id cmax (Carousel_c (wrapper []) ''ease-in-out'' 250) = Inr (- 1)"
  by (simp add: Carousel_c_def initSlides_c_def blank_def wrapper_def anchors_def)

text \<open>
  C10, amended. Constructing the carousel of Carousel/index.js on an element without slides
  fails at construction time and yields no instance: \<open>initSlides\<close> dereferences \<open>slides[0]\<close>
  and the constructor throws a \<open>TypeError\<close> (the code has no configuration error of its
  own). The constructor of carousel.js returns for such an element; the instance has
  \<open>max = -1\<close> and \<open>cur = prev = next = -1\<close>, and its step operations throw a \<open>TypeError\<close>: \<open>back\<close> and
  \<open>fwd\<close> unless the element carries the class \<open>moving\<close>, and \<open>goto\<close> for every target but
  \<open>-1\<close>.
\<close>

theorem no_slides_construction:
  assumes "el_slides el = []"
  shows "Carousel el = Inl TypeError \<and>
    (\<exists>s. Carousel_c el fn d = Inr s \<and> cmax s = - 1 \<and> cur s = - 1 \<and>
       prev s = - 1 \<and> next s = - 1 \<and>
       (moving s \<or> back_c s = Inl TypeError \<and> fwd_c s = Inl TypeError) \<and>
       (n = - 1 \<or> goto_c n s = Inl TypeError))"
proof -
  have "Carousel el = Inl TypeError"
    using assms by (simp add: Carousel_def initSlides_def slides_ok_def Let_def)
  moreover define s where "s = initSlides_c el
                ((blank el)\<lparr>duration := parseInt_ms (Some d), defaultDuration := Some d,
                            timingFunction := fn, defaultTimingFunction := fn\<rparr>)"
  have c: "Carousel_c el fn d = Inr s" using assms by (simp add: Carousel_c_def s_def)
  have f: "cmax s = - 1" "cur s = - 1" "prev s = - 1" "next s = - 1"
    using assms by (simp_all add: s_def initSlides_c_def)
  have "back_c s = Inl TypeError \<and> fwd_c s = Inl TypeError" if "\<not> moving s"
    using that f
    by (simp add: back_c_def fwd_c_def move_c_def and_then_def setCur_def slides_ok_def)
  moreover have "goto_c n s = Inl TypeError" if "n \<noteq> - 1"
    using that f
    by (simp add: goto_c_def moveRecursive_c_def addEventListener_def slides_ok_def Let_def)
  ultimately show ?thesis using c f by blast
qed

theorem no_slides_construction_witness:
  "Carousel (wrapper []) = Inl TypeError \<and>
   (\<exists>s. Carousel_c (wrapper []) ''ease-in-out'' 250 = Inr s \<and> cmax s = - 1 \<and> cur s = - 1 \<and>
      back_c s = Inl TypeError \<and> fwd_c s = Inl TypeError \<and> goto_c 0 s = Inl TypeError)"
proof -
  have a: "el_slides (wrapper []) = []" by (simp add: wrapper_def)
  have b: "\<not> moving s" if "Carousel_c (wrapper []) ''ease-in-out'' 250 = Inr s" for s
    using that by (auto simp: Carousel_c_def initSlides_c_def blank_def wrapper_def)
  show ?thesis
    using no_slides_construction[OF a, of "''ease-in-out''" 250 0] b by auto
qed

section \<open>C7: the release of a gesture\<close>

lemma clear_transforms:
  assumes "slides_ok s (prev s)" "slides_ok s (cur s)" "slides_ok s (next s)"
  shows "and_then (\<lambda>s. setTransform (prev s) NoTransform s)
           (and_then (\<lambda>s. setTransform (cur s) NoTransform s)
              (\<lambda>s. setTransform (next s) NoTransform s)) s =
         Inr (s\<lparr>slideTransform := (slideTransform s)
                 (prev s := NoTransform, cur s := NoTransform, next s := NoTransform)\<rparr>)"
  using assms by (simp add: and_then_def setTransform_def slides_ok_def)

lemma pxOffset_cur:
  assumes "slides_ok s (prev s)" "slides_ok s (cur s)" "slides_ok s (next s)"
  shows "\<exists>s'. pxOffset px s = Inr s' \<and> cur s' = cur s \<and> prev s' = prev s \<and> next s' = next s \<and>
    dir s' = dir s \<and> cmax s' = cmax s \<and>
    slideTransform s' (cur s) \<noteq> NoTransform"
  using assms by (auto simp: pxOffset_def and_then_def setTransform_def slides_ok_def Let_def)

text \<open>
  What \<open>pointerUp\<close> and \<open>pointerMove\<close> do, for a carousel of carousel.js whose anchors are
  slides and which is not moving:
  \<^item> if the current slide carries no live offset, \<open>pointerUp\<close> commits no step: transitions
    are enabled again, the session is cleared, and nothing else changes;
  \<^item> if it carries one, exactly one step is committed, whatever the distance, and the live
    offsets of the three anchors are reset; the direction is taken from the release delta
    \<open>pageX - pointerStart\<close> alone, by \<open>delta > 0 ? back : fwd\<close>;
  \<^item> in a session that started at a \<open>pageX\<close> other than 0, \<open>pointerMove\<close> does nothing for a
    delta of 0 and displaces the current slide for every other delta.
\<close>

lemma release_after_drag:
  assumes "slides_ok s (prev s)" "slides_ok s (cur s)" "slides_ok s (next s)" "\<not> moving s"
  shows "(slideTransform s (cur s) = NoTransform \<longrightarrow>
            pointerUp x s = Inr (s\<lparr>transition := True, pointerStart := None\<rparr>)) \<and>
         (slideTransform s (cur s) \<noteq> NoTransform \<longrightarrow>
            (\<exists>s'. pointerUp x s = Inr s' \<and>
               dir s' = Some (if x - (case pointerStart s of None \<Rightarrow> 0 | Some p \<Rightarrow> p) > 0
                              then DIRECTIONS_back else DIRECTIONS_fwd) \<and>
               cur s' = (cur s + (if x - (case pointerStart s of None \<Rightarrow> 0 | Some p \<Rightarrow> p) > 0
                                  then - 1 else 1)) mod (cmax s + 1) \<and>
               slideTransform s' (prev s) = NoTransform \<and>
               slideTransform s' (cur s) = NoTransform \<and>
               slideTransform s' (next s) = NoTransform \<and>
               transition s' \<and> pointerStart s' = None \<and> \<not> moving s' \<and>
               duration s' = duration s \<and> timingFunction s' = timingFunction s)) \<and>
         (pointerStart s = Some p \<and> p \<noteq> 0 \<longrightarrow>
            (if x = p then pointerMove x s = Inr s
             else (\<exists>s'. pointerMove x s = Inr s' \<and> cur s' = cur s \<and>
                     slideTransform s' (cur s') \<noteq> NoTransform \<and>
                     dir s' = Some (if x - p > 0 then DIRECTIONS_back else DIRECTIONS_fwd))))"
proof (intro conjI impI)
  show "pointerUp x s = Inr (s\<lparr>transition := True, pointerStart := None\<rparr>)"
    if "slideTransform s (cur s) = NoTransform"
    using that assms(2) by (simp add: pointerUp_def slides_ok_def Let_def)
next
  assume t: "slideTransform s (cur s) \<noteq> NoTransform"
  define d where
    "d = (if x - (case pointerStart s of None \<Rightarrow> 0 | Some p \<Rightarrow> p) > 0
          then DIRECTIONS_back else DIRECTIONS_fwd)"
  define s2 where "s2 = s\<lparr>transition := True, slideTransform := (slideTransform s)
                 (prev s := NoTransform, cur s := NoTransform, next s := NoTransform)\<rparr>"
  define s3 where "s3 = s2\<lparr>dir := Some d\<rparr>"
  have cl: "and_then (\<lambda>s. setTransform (prev s) NoTransform s)
           (and_then (\<lambda>s. setTransform (cur s) NoTransform s)
              (\<lambda>s. setTransform (next s) NoTransform s)) (s\<lparr>transition := True\<rparr>) = Inr s2"
    using clear_transforms[of "s\<lparr>transition := True\<rparr>"] assms(1-3)
    by (simp add: s2_def slides_ok_def)
  have ok3: "slides_ok s3 (prev s3)" "slides_ok s3 (cur s3)" "slides_ok s3 (next s3)"
    "dir s3 = Some d" "d = DIRECTIONS_back \<or> d = DIRECTIONS_fwd"
    using assms(1-3) by (simp_all add: s3_def s2_def slides_ok_def d_def)
  have st: "(if x - (case pointerStart s2 of None \<Rightarrow> 0 | Some p \<Rightarrow> p) > 0
             then back_c s2 else fwd_c s2) = move_c s3"
    using assms(4) by (simp add: back_c_def fwd_c_def s3_def s2_def d_def)
  define c where "c = (cur s3 + d) mod (cmax s3 + 1)"
  define s4 where "s4 = s3\<lparr>cur := c, next := (c + d) mod (cmax s3 + 1),
      prev := (c - d) mod (cmax s3 + 1)\<rparr>"
  have mv: "move_c s3 = Inr s4" using move_c_step[OF ok3] by (simp add: s4_def c_def)
  have up: "pointerUp x s = Inr (s4\<lparr>pointerStart := None\<rparr>)"
    using t assms(2) cl st mv by (simp add: pointerUp_def Let_def slides_ok_def)
  have dv: "d = (if x - (case pointerStart s of None \<Rightarrow> 0 | Some p \<Rightarrow> p) > 0 then - 1 else 1)"
    by (simp add: d_def DIRECTIONS_back_def DIRECTIONS_fwd_def)
  show "\<exists>s'. pointerUp x s = Inr s' \<and>
               dir s' = Some (if x - (case pointerStart s of None \<Rightarrow> 0 | Some p \<Rightarrow> p) > 0
                              then DIRECTIONS_back else DIRECTIONS_fwd) \<and>
               cur s' = (cur s + (if x - (case pointerStart s of None \<Rightarrow> 0 | Some p \<Rightarrow> p) > 0
                                  then - 1 else 1)) mod (cmax s + 1) \<and>
               slideTransform s' (prev s) = NoTransform \<and>
               slideTransform s' (cur s) = NoTransform \<and>
               slideTransform s' (next s) = NoTransform \<and>
               transition s' \<and> pointerStart s' = None \<and> \<not> moving s' \<and>
               duration s' = duration s \<and> timingFunction s' = timingFunction s"
    unfolding up dv[symmetric] d_def[symmetric]
    using assms(4) by (simp add: s4_def c_def s3_def s2_def)
next
  assume p: "pointerStart s = Some p \<and> p \<noteq> 0"
  show "if x = p then pointerMove x s = Inr s
        else (\<exists>s'. pointerMove x s = Inr s' \<and> cur s' = cur s \<and>
                slideTransform s' (cur s') \<noteq> NoTransform \<and>
                dir s' = Some (if x - p > 0 then DIRECTIONS_back else DIRECTIONS_fwd))"
  proof (cases "x = p")
    case True
    then show ?thesis using p by (simp add: pointerMove_def)
  next
    case False
    define d where "d = (if x - p > 0 then DIRECTIONS_back else DIRECTIONS_fwd)"
    define s1 where "s1 = s\<lparr>dir := Some d\<rparr>"
    have dd: "d = DIRECTIONS_back \<or> d = DIRECTIONS_fwd" by (simp add: d_def)
    have ok1: "slides_ok s1 (prev s1)" "slides_ok s1 (cur s1)" "dir s1 = Some d"
      "slides_ok s1 (next s1)"
      using assms(1-3) by (simp_all add: s1_def slides_ok_def)
    define s2 where "s2 = s1\<lparr>prev := (cur s1 - d) mod (cmax s1 + 1)\<rparr>"
    have a: "setPrev_c s1 = Inr s2" using setPrev_c_step[OF ok1(1-3) dd] by (simp add: s2_def)
    from assms(2) have m0: "0 \<le> cmax s" by (simp add: slides_ok_def)
    have ok2: "slides_ok s2 (next s2)" "slides_ok s2 (cur s2)" "dir s2 = Some d"
      using ok1 by (simp_all add: s2_def s1_def slides_ok_def)
    define s3 where "s3 = s2\<lparr>next := (cur s2 + d) mod (cmax s2 + 1)\<rparr>"
    have b: "setNext_c s2 = Inr s3" using setNext_c_step[OF ok2 dd] by (simp add: s3_def)
    have ok3: "slides_ok s3 (prev s3)" "slides_ok s3 (cur s3)" "slides_ok s3 (next s3)"
      using ok2 slides_ok_mod[of s "cur s - d"] slides_ok_mod[of s "cur s + d"] m0
      by (simp_all add: s3_def s2_def s1_def slides_ok_def)
    obtain s' where c: "pxOffset (x - p) s3 = Inr s'" "cur s' = cur s3" "dir s' = dir s3"
      "slideTransform s' (cur s3) \<noteq> NoTransform"
      using pxOffset_cur[OF ok3, of "x - p"] by blast
    have "pointerMove x s = and_then setPrev_c (and_then setNext_c (pxOffset (x - p))) s1"
      using p False by (simp add: pointerMove_def Let_def s1_def d_def)
    then have "pointerMove x s = Inr s'"
      using a b c(1) by (simp add: and_then_def)
    then show ?thesis
      using False c by (simp add: s3_def s2_def s1_def d_def)
  qed
qed

lemma release_after_drag_example:
  "(\<exists>s'. pointerUp 140 dragged = Inr s' \<and> dir s' = Some DIRECTIONS_back \<and> cur s' = 1) \<and>
   (\<exists>s'. pointerUp 60 dragged = Inr s' \<and> dir s' = Some DIRECTIONS_fwd \<and> cur s' = 3) \<and>
   pointerUp 140 (pointerDown 100 (resting 4 1 2))
     = Inr ((resting 4 1 2)\<lparr>transition := True, pointerStart := None\<rparr>) \<and>
   pointerMove 100 dragged = Inr dragged \<and>
   (\<exists>s'. pointerMove 70 dragged = Inr s' \<and> cur s' = 2 \<and> dir s' = Some DIRECTIONS_fwd)"
proof -
  have a: "slides_ok dragged (prev dragged)" "slides_ok dragged (cur dragged)"
    "slides_ok dragged (next dragged)" "\<not> moving dragged"
    and b: "slideTransform dragged (cur dragged) \<noteq> NoTransform" "cur dragged = 2"
    "cmax dragged = 4" "pointerStart dragged = Some 100"
    by (simp_all add: dragged_def resting_def slides_ok_def)
  define r where "r = pointerDown 100 (resting 4 1 2)"
  have c: "slides_ok r (prev r)" "slides_ok r (cur r)" "slides_ok r (next r)" "\<not> moving r"
    "slideTransform r (cur r) = NoTransform"
    "r\<lparr>transition := True, pointerStart := None\<rparr>
       = (resting 4 1 2)\<lparr>transition := True, pointerStart := None\<rparr>"
    by (simp_all add: r_def pointerDown_def resting_def slides_ok_def)
  have 1: "\<exists>s'. pointerUp 140 dragged = Inr s' \<and> dir s' = Some DIRECTIONS_back \<and> cur s' = 1"
    using release_after_drag[OF a, of 140 100] b by auto
  have 2: "\<exists>s'. pointerUp 60 dragged = Inr s' \<and> dir s' = Some DIRECTIONS_fwd \<and> cur s' = 3"
    using release_after_drag[OF a, of 60 100] b by auto
  have 3: "pointerUp 140 r = Inr ((resting 4 1 2)\<lparr>transition := True, pointerStart := None\<rparr>)"
    using release_after_drag[OF c(1-4), of 140 0] c(5,6) by simp
  have 4: "pointerMove 100 dragged = Inr dragged"
    "\<exists>s'. pointerMove 70 dragged = Inr s' \<and> cur s' = 2 \<and> dir s' = Some DIRECTIONS_fwd"
    using release_after_drag[OF a, of 100 100] release_after_drag[OF a, of 70 100] b by auto
  show ?thesis using 1 2 3 4 unfolding r_def by blast
qed

text \<open>
  C7 fails on the code, on two inputs (five slides at rest on slide 2).
  \<^item> A drag that was displaced and comes back to its start: pointer-down at 100, move to
    140, move back to 100, release at 100. The release delta is 0 and the claim says that
    nothing is committed; \<open>pointerMove\<close> takes a delta of 0 for no movement
    (\<open>Math.abs(delta) > 0\<close>), but \<open>pointerUp\<close> tests only \<open>delta > 0\<close> and commits \<open>fwd\<close> in its
    else branch: the carousel ends on slide 3.
  \<^item> A session that starts at \<open>pageX\<close> 0: pointer-down at 0, move to 40, release at 40.
    The drag has a delta of 40 and the claim says that \<open>back\<close> is committed; but
    \<open>if (this.pointerStart)\<close> takes the 0 for no session (\<open>null\<close>), \<open>pointerMove\<close> displaces
    nothing and the release commits nothing.
\<close>

theorem release_commits_by_sign:
  "pointerMove 140 (pointerDown 100 (resting 4 1 2)) = Inr dragged \<and>
   pointerMove 100 dragged = Inr dragged \<and>
   anchors (pointerUp 100 dragged) = Some (2, 3, 4) \<and>
   map_sum id dir (pointerUp 100 dragged) = Inr (Some DIRECTIONS_fwd) \<and>
   anchors (and_then (pointerMove 140) (and_then (pointerMove 100) (pointerUp 100))
              (pointerDown 100 (resting 4 1 2))) = Some (2, 3, 4) \<and>
   pointerMove 40 (pointerDown 0 (resting 4 1 2)) = Inr (pointerDown 0 (resting 4 1 2)) \<and>
   pointerUp 40 (pointerDown 0 (resting 4 1 2))
     = Inr ((resting 4 1 2)\<lparr>transition := True, pointerStart := None\<rparr>) \<and>
   anchors (and_then (pointerMove 40) (pointerUp 40) (pointerDown 0 (resting 4 1 2)))
     = Some (1, 2, 3)"
proof -
  have m: "pointerMove 140 (pointerDown 100 (resting 4 1 2)) = Inr dragged"
    by (simp add: pointerMove_def pointerDown_def pxOffset_def setTransform_def setNext_c_def
        setPrev_c_def resting_def dragged_def run_defs)
  have z: "pointerMove 100 dragged = Inr dragged"
    by (simp add: pointerMove_def dragged_def)
  have u: "anchors (pointerUp 100 dragged) = Some (2, 3, 4)"
    "map_sum id dir (pointerUp 100 dragged) = Inr (Some DIRECTIONS_fwd)"
    by (simp_all add: pointerUp_def setTransform_def fwd_c_def back_c_def move_c_def
        setNext_c_def setPrev_c_def resting_def dragged_def run_defs)
  have n: "pointerMove 40 (pointerDown 0 (resting 4 1 2)) = Inr (pointerDown 0 (resting 4 1 2))"
    by (simp add: pointerMove_def pointerDown_def)
  have r: "pointerUp 40 (pointerDown 0 (resting 4 1 2))
     = Inr ((resting 4 1 2)\<lparr>transition := True, pointerStart := None\<rparr>)"
    by (simp add: pointerUp_def pointerDown_def resting_def slides_ok_def)
  have a: "anchors (Inr ((resting 4 1 2)\<lparr>transition := True, pointerStart := None\<rparr>))
     = Some (1, 2, 3)"
    by (simp add: anchors_def resting_def)
  show ?thesis using m z u n r a by (simp add: and_then_def)
qed

section \<open>C8: the auto mover's timer\<close>

lemma interval_positive: "0 < interval s"
  by (simp add: interval_def split: option.split)

lemma start_when_moving: "moving s \<Longrightarrow> start s = s"
  by (simp add: start_def)

lemma stop_idempotent: "stop (stop s) = stop s"
  by (simp add: stop_def split: option.split)

lemma stop_clears: "one_timer s \<Longrightarrow> timers (stop s) = [] \<and> autoSlideInterval (stop s) = None"
proof -
  assume o: "one_timer s"
  show ?thesis
  proof (cases "timers s")
    case Nil
    then show ?thesis by (simp add: stop_def split: option.split)
  next
    case (Cons t ts)
    with o have "ts = []" "autoSlideInterval s = Some (fst t)" by (simp_all add: one_timer_def)
    with Cons show ?thesis by (simp add: stop_def)
  qed
qed

lemma start_schedules_one:
  assumes "\<not> moving s" "one_timer s"
  shows "timers (start s) = [(timerSeq s, interval s)] \<and>
    autoSlideInterval (start s) = Some (timerSeq s)"
proof -
  have i: "interval s \<noteq> 0" using interval_positive[of s] by simp
  have f: "timerSeq (stop s) = timerSeq s" "interval (stop s) = interval s"
    by (simp_all add: stop_def interval_def split: option.split)
  show ?thesis
    using assms(1) i stop_clears[OF assms(2)] f by (simp add: start_def Let_def)
qed

lemma one_timer_cong:
  "timers s' = timers s \<Longrightarrow> autoSlideInterval s' = autoSlideInterval s \<Longrightarrow>
   one_timer s' = one_timer s"
  by (simp add: one_timer_def)

lemma one_timer_stop: "one_timer s \<Longrightarrow> one_timer (stop s)"
  using stop_clears[of s] by (simp add: one_timer_def)

lemma one_timer_start: "one_timer s \<Longrightarrow> one_timer (start s)"
  using start_schedules_one[of s]
  by (cases "moving s") (simp_all add: start_when_moving one_timer_def)

lemma one_timer_pointer:
  "one_timer s \<Longrightarrow> one_timer (pointerEnter s)" "one_timer s \<Longrightarrow> one_timer (pointerLeave s)"
proof -
  have h: "one_timer (x\<lparr>hover := b\<rparr>) = one_timer x" for x b
    by (rule one_timer_cong) simp_all
  show "one_timer s \<Longrightarrow> one_timer (pointerEnter s)"
    by (simp add: pointerEnter_def Let_def h one_timer_stop)
  show "one_timer s \<Longrightarrow> one_timer (pointerLeave s)"
    by (simp add: pointerLeave_def Let_def h one_timer_start)
qed

lemma one_timer_listeners:
  "one_timer s \<Longrightarrow> one_timer (on_transitionbefore s)"
  "one_timer s \<Longrightarrow> one_timer (on_transitionend s)"
  by (simp_all add: on_transitionbefore_def on_transitionend_def one_timer_stop one_timer_start)

lemma one_timer_dispatch:
  "one_timer (emit k s) = one_timer s"
  "one_timer (set_duration d s) = one_timer s"
  "one_timer (set_timingFunction f s) = one_timer s"
  "one_timer (set_transition b s) = one_timer s"
  "one_timer (requestAnimationFrame c s) = one_timer s"
  "one_timer (dispatchTransitionStart s) = one_timer s"
  by (rule one_timer_cong;
      simp add: emit_def set_duration_def set_timingFunction_def set_transition_def
        dispatchTransitionChange_def requestAnimationFrame_def dispatchTransitionStart_def)+

text \<open>Every \<open>before\<close> event cancels the pending timer of an attached auto mover.\<close>

lemma before_cancels:
  assumes "autoMove s" "one_timer s"
  shows "timers (dispatchTransitionBefore s) = []"
proof -
  have "one_timer (emit Ev_before s)" using assms(2) by (simp add: one_timer_dispatch)
  then show ?thesis
    using assms(1) stop_clears[of "emit Ev_before s"]
    by (simp add: dispatchTransitionBefore_def on_transitionbefore_def emit_def)
qed

text \<open>The invariant through the carousel's own operations and the browser's deliveries.\<close>

lemma one_timer_before_end:
  "one_timer s \<Longrightarrow> one_timer (dispatchTransitionBefore s)"
  "one_timer s \<Longrightarrow> one_timer (dispatchTransitionEnd s)"
  "one_timer s \<Longrightarrow> one_timer (reset s)"
proof -
  have e: "one_timer s \<Longrightarrow> one_timer (dispatchTransitionEnd s)" for s
    by (simp add: dispatchTransitionEnd_def one_timer_listeners one_timer_dispatch)
  show "one_timer s \<Longrightarrow> one_timer (dispatchTransitionBefore s)"
    by (simp add: dispatchTransitionBefore_def one_timer_listeners one_timer_dispatch)
  show "one_timer s \<Longrightarrow> one_timer (dispatchTransitionEnd s)" by (rule e)
  have m: "one_timer (x\<lparr>moving := b\<rparr>) = one_timer x" for x b
    by (rule one_timer_cong) simp_all
  show "one_timer s \<Longrightarrow> one_timer (reset s)"
    by (simp add: reset_def Let_def e m one_timer_dispatch)
qed

lemma keeps_timers_one: "keeps_timers f \<Longrightarrow> keeps_one_timer f"
  unfolding keeps_timers_def keeps_one_timer_def using one_timer_cong by blast

lemma keeps_timers_and_then:
  "keeps_timers f \<Longrightarrow> keeps_timers g \<Longrightarrow> keeps_timers (and_then f g)"
  unfolding keeps_timers_def and_then_def by (auto split: sum.splits)

lemma keeps_timers_setCur: "keeps_timers setCur"
  unfolding keeps_timers_def setCur_def Let_def by (auto split: if_splits)

lemma keeps_timers_setVis: "keeps_timers setVis"
  unfolding keeps_timers_def setVis_def by (auto split: if_splits)

lemma keeps_timers_setNext: "keeps_timers setNext"
  unfolding keeps_timers_def setNext_def Let_def by (auto split: if_splits)

lemma keeps_timers_setPrev: "keeps_timers setPrev"
  unfolding keeps_timers_def setPrev_def Let_def by (auto split: if_splits)

lemma keeps_timers_setNext_c: "keeps_timers setNext_c"
  unfolding keeps_timers_def setNext_c_def Let_def by (auto split: if_splits)

lemma keeps_timers_setPrev_c: "keeps_timers setPrev_c"
  unfolding keeps_timers_def setPrev_c_def Let_def by (auto split: if_splits)

lemma keeps_timers_listener: "keeps_timers (addEventListener i l)"
  unfolding keeps_timers_def addEventListener_def by (auto split: if_splits)

lemma keeps_timers_set_moving: "keeps_timers (set_moving b)"
  unfolding keeps_timers_def set_moving_def addEventListener_def by (auto split: if_splits)

lemmas keeps_timers_indices = keeps_timers_setCur keeps_timers_setVis keeps_timers_setNext
  keeps_timers_setPrev keeps_timers_setNext_c keeps_timers_setPrev_c

lemma keeps_timers_moveRecursive_c: "keeps_timers (moveRecursive_c n)"
proof -
  have m: "keeps_timers move_c"
    unfolding move_c_def[abs_def] by (intro keeps_timers_and_then keeps_timers_indices)
  show ?thesis
    unfolding keeps_timers_def
  proof (intro allI impI)
    fix s s' assume a: "moveRecursive_c n s = Inr s'"
    note mm = m[unfolded keeps_timers_def, rule_format]
    show "timers s' = timers s \<and> autoSlideInterval s' = autoSlideInterval s"
    proof (cases "(if dir s = Some DIRECTIONS_fwd then cur s + 1 else cur s - 1) \<noteq> n")
      case True
      then have "move_c (s\<lparr>listeners := listeners s @ [(cur s, GotoNext_c n)]\<rparr>) = Inr s'"
        using a by (simp add: moveRecursive_c_def addEventListener_def Let_def split: if_splits)
      from mm[OF this] show ?thesis by simp
    next
      case False
      then have "move_c (s\<lparr>listeners := listeners s @ [(cur s, GotoRestore_c)],
          timingFunction := ''ease-out'', duration := parseInt_ms (defaultDuration s)\<rparr>) = Inr s'"
        using a by (simp add: moveRecursive_c_def addEventListener_def Let_def split: if_splits)
      from mm[OF this] show ?thesis by simp
    qed
  qed
qed

lemma keeps_move: "keeps_one_timer move"
  unfolding keeps_one_timer_def
proof (intro allI impI)
  fix s s' assume o: "one_timer s" and m: "move s = Inr s'"
  have b: "one_timer (dispatchTransitionBefore s)" using o by (rule one_timer_before_end)
  from m obtain s1 where s1: "set_moving True (dispatchTransitionBefore s) = Inr s1"
    by (auto simp: move_def split: sum.splits)
  have o1: "one_timer s1"
    using keeps_timers_one[OF keeps_timers_set_moving] b s1 unfolding keeps_one_timer_def by blast
  show "one_timer s'"
  proof (cases "cmax s1 = 1")
    case True
    then have "s' = requestAnimationFrame MoveOuter (set_transition False s1)"
      using m s1 by (simp add: move_def)
    then show ?thesis using o1 by (simp add: one_timer_dispatch)
  next
    case False
    have k: "keeps_one_timer (and_then setCur (and_then setVis (and_then setNext setPrev)))"
      by (intro keeps_timers_one keeps_timers_and_then keeps_timers_indices)
    from m s1 False obtain s2 where
      s2: "and_then setCur (and_then setVis (and_then setNext setPrev)) s1 = Inr s2"
      and e: "s' = dispatchTransitionStart s2"
      by (auto simp: move_def split: sum.splits)
    have "one_timer s2" using k o1 s2 unfolding keeps_one_timer_def by blast
    then show ?thesis by (simp add: e one_timer_dispatch)
  qed
qed

lemma keeps_moveRecursive: "keeps_one_timer (moveRecursive n)"
  unfolding keeps_one_timer_def
proof (intro allI impI)
  fix s s' assume o: "one_timer s" and a: "moveRecursive n s = Inr s'"
  note mv = keeps_move[unfolded keeps_one_timer_def, rule_format]
  have l: "one_timer (x\<lparr>listeners := v\<rparr>) = one_timer x" for x v
    by (rule one_timer_cong) simp_all
  define s1 where "s1 = set_timingFunction ''linear'' (set_duration (Some 60) s)"
  have o1: "one_timer s1" using o by (simp add: s1_def one_timer_dispatch)
  show "one_timer s'"
  proof (cases "(if dir s = Some DIRECTIONS_fwd then cur s + 1 else cur s - 1) \<noteq> n")
    case True
    then have "move (s1\<lparr>listeners := listeners s1 @ [(cur s1, GotoNext n)]\<rparr>) = Inr s'"
      using a
      by (simp add: moveRecursive_def addEventListener_def Let_def s1_def[symmetric]
          split: if_splits)
    then show ?thesis using mv o1 l by blast
  next
    case False
    then have "move (set_duration (defaultDuration s1) (set_timingFunction ''ease-out''
        (s1\<lparr>listeners := listeners s1 @ [(cur s1, GotoRestore)]\<rparr>))) = Inr s'"
      using a
      by (simp add: moveRecursive_def addEventListener_def Let_def s1_def[symmetric]
          split: if_splits)
    moreover have "one_timer (set_duration (defaultDuration s1) (set_timingFunction ''ease-out''
        (s1\<lparr>listeners := listeners s1 @ [(cur s1, GotoRestore)]\<rparr>)))"
      using o1 by (simp add: one_timer_dispatch l)
    ultimately show ?thesis using mv by blast
  qed
qed

lemma keeps_steps:
  "keeps_one_timer back_op" "keeps_one_timer fwd" "keeps_one_timer (goto n)"
proof -
  have d: "one_timer (x\<lparr>dir := v\<rparr>) = one_timer x" for x v
    by (rule one_timer_cong) simp_all
  note mv = keeps_move[unfolded keeps_one_timer_def, rule_format]
  note mr = keeps_moveRecursive[unfolded keeps_one_timer_def, rule_format]
  show "keeps_one_timer back_op" "keeps_one_timer fwd"
    unfolding keeps_one_timer_def back_op_def fwd_def
    using mv d by (auto split: if_splits)
  show "keeps_one_timer (goto n)"
    unfolding keeps_one_timer_def
  proof (intro allI impI)
    fix s s' assume o: "one_timer s" and g: "goto n s = Inr s'"
    show "one_timer s'"
    proof (cases "moving s \<or> cmax s = 0 \<or> n < 0 \<or> n > cmax s \<or> n = cur s")
      case True
      then have "s' = s" using g by (auto simp: goto_def split: if_splits)
      then show ?thesis using o by simp
    next
      case False
      define v where "v = (if n > cur s then DIRECTIONS_fwd else DIRECTIONS_back)"
      have "goto n s = moveRecursive n (s\<lparr>dir := Some v\<rparr>)"
        using False by (simp add: goto_def v_def)
      then have "moveRecursive n (s\<lparr>dir := Some v\<rparr>) = Inr s'" using g by simp
      moreover have "one_timer (s\<lparr>dir := Some v\<rparr>)" using o by (simp add: d)
      ultimately show ?thesis using mr by blast
    qed
  qed
qed

lemma keeps_timeout: "keeps_one_timer (timeout h)"
  unfolding keeps_one_timer_def
proof (intro allI impI)
  fix s s' assume o: "one_timer s" and t: "timeout h s = Inr s'"
  define s1 where "s1 = s\<lparr>timers := filter (\<lambda>t. fst t \<noteq> h) (timers s)\<rparr>"
  have o1: "one_timer s1"
  proof (cases "timers s")
    case Nil
    then show ?thesis by (simp add: s1_def one_timer_def)
  next
    case (Cons a as)
    with o have "as = []" "autoSlideInterval s = Some (fst a)" by (simp_all add: one_timer_def)
    with Cons show ?thesis by (simp add: s1_def one_timer_def)
  qed
  have d: "one_timer (x\<lparr>dir := v\<rparr>) = one_timer x" for x v
    by (rule one_timer_cong) simp_all
  note mv = keeps_move[unfolded keeps_one_timer_def, rule_format]
  show "one_timer s'"
  proof (cases "h \<in> set (map fst (timers s))")
    case False
    then show ?thesis using t o by (simp add: timeout_def)
  next
    case True
    show ?thesis
    proof (cases "moving s")
      case True
      then show ?thesis using t o1 \<open>h \<in> set (map fst (timers s))\<close>
        by (simp add: timeout_def Let_def s1_def)
    next
      case False
      define s3 where "s3 = set_timingFunction
          (auto_timingFunction (set_duration (Some (auto_duration s1)) s1))
          (set_duration (Some (auto_duration s1)) s1)"
      define v where
        "v = (if autoDir s3 = Some ''back'' then DIRECTIONS_back else DIRECTIONS_fwd)"
      have "timeout h s = move (s3\<lparr>dir := Some v\<rparr>)"
        using False True by (simp add: timeout_def Let_def s1_def s3_def v_def)
      then have "move (s3\<lparr>dir := Some v\<rparr>) = Inr s'" using t by simp
      moreover have "one_timer (s3\<lparr>dir := Some v\<rparr>)"
        using o1 by (simp add: s3_def one_timer_dispatch d)
      ultimately show ?thesis using mv by blast
    qed
  qed
qed

lemma one_timer_transitionend: "one_timer s \<Longrightarrow> one_timer (transitionend i s)"
proof -
  have r: "one_timer x \<Longrightarrow> one_timer (runListener l x)" for l x
  proof (cases l)
    case GotoRestore_c
    assume "one_timer x"
    moreover have "one_timer (x\<lparr>timingFunction := defaultTimingFunction x\<rparr>) = one_timer x"
      by (rule one_timer_cong) simp_all
    ultimately show ?thesis using GotoRestore_c by (simp add: runListener_def)
  qed (simp_all add: runListener_def one_timer_dispatch one_timer_before_end)
  have f: "one_timer x \<Longrightarrow> one_timer (fold runListener ls x)" for ls x
    by (induction ls arbitrary: x) (simp_all add: r)
  assume "one_timer s"
  then have "one_timer (s\<lparr>listeners := filter (\<lambda>l. fst l \<noteq> i) (listeners s)\<rparr>)"
    by (simp add: one_timer_def)
  then show ?thesis unfolding transitionend_def by (rule f)
qed

lemma keeps_frame: "keeps_one_timer frame"
  unfolding keeps_one_timer_def
proof (intro allI impI)
  fix s s' assume o: "one_timer s" and t: "frame s = Inr s'"
  show "one_timer s'"
  proof (cases "frames s")
    case Nil
    then show ?thesis using o t by (simp add: frame_def)
  next
    case (Cons f fs)
    have o1: "one_timer (s\<lparr>frames := fs\<rparr>)" using o by (simp add: one_timer_def)
    have r: "runFrame f (s\<lparr>frames := fs\<rparr>) = Inr s'" using t Cons by (simp add: frame_def)
    have k: "keeps_one_timer (and_then setCur (and_then setNext setPrev))"
      by (intro keeps_timers_one keeps_timers_and_then keeps_timers_indices)
    note mr = keeps_moveRecursive[unfolded keeps_one_timer_def, rule_format]
    note mc = keeps_timers_one[OF keeps_timers_moveRecursive_c,
        unfolded keeps_one_timer_def, rule_format]
    note kk = k[unfolded keeps_one_timer_def, rule_format]
    show ?thesis
    proof (cases f)
      case (MoveRecursive n)
      then have "moveRecursive n (s\<lparr>frames := fs\<rparr>) = Inr s'" using r by (simp add: runFrame_def)
      then show ?thesis using o1 mr by blast
    next
      case MoveOuter
      then have "s' = requestAnimationFrame MoveInner (s\<lparr>frames := fs\<rparr>)"
        using r by (simp add: runFrame_def split: if_splits)
      then show ?thesis using o1 by (simp add: one_timer_dispatch)
    next
      case MoveInner
      then obtain s2 where "and_then setCur (and_then setNext setPrev)
          (set_transition True (s\<lparr>frames := fs\<rparr>)) = Inr s2" "s' = dispatchTransitionStart s2"
        using r by (auto simp: runFrame_def split: sum.splits)
      then show ?thesis
        using kk[of "set_transition True (s\<lparr>frames := fs\<rparr>)" s2] o1
        by (simp add: one_timer_dispatch)
    next
      case ResetOuter
      then have "s' = requestAnimationFrame ResetInner (s\<lparr>frames := fs\<rparr>)"
        using r by (simp add: runFrame_def split: if_splits)
      then show ?thesis using o1 by (simp add: one_timer_dispatch)
    next
      case ResetInner
      then have "s' = reset (set_transition True (s\<lparr>frames := fs\<rparr>))"
        using r by (simp add: runFrame_def)
      then show ?thesis using o1 by (simp add: one_timer_dispatch one_timer_before_end)
    next
      case (MoveRecursive_c n)
      then have "moveRecursive_c n (s\<lparr>frames := fs\<rparr>) = Inr s'"
        using r by (simp add: runFrame_def)
      then show ?thesis using o1 mc by blast
    qed
  qed
qed

lemma one_timer_bound: "one_timer s \<Longrightarrow> length (timers s) \<le> 1"
  by (auto simp: one_timer_def)

lemma one_timer_attach: "timers s = [] \<Longrightarrow> one_timer (CarouselAutoMove s)"
proof -
  assume "timers s = []"
  then have "one_timer (s\<lparr>autoMove := True\<rparr>)" by (simp add: one_timer_def)
  then show ?thesis unfolding CarouselAutoMove_def by (rule one_timer_start)
qed

text \<open>
  A manual step cancels the auto step: after \<open>fwd\<close> no timer is pending, so the timer that
  was pending when \<open>fwd\<close> was called fires nothing at its deadline.
\<close>

lemma manual_step_cancels:
  assumes "wf_state s" "\<not> moving s" "cmax s \<noteq> 0" "autoMove s" "one_timer s"
  shows "\<exists>s'. fwd s = Inr s' \<and> timers s' = [] \<and> timeout h s' = Inr s'"
proof -
  define t where "t = s\<lparr>dir := Some DIRECTIONS_fwd\<rparr>"
  have t: "wf_state t" "dir t = Some DIRECTIONS_fwd" "autoMove t" "one_timer t"
    using assms by (simp_all add: t_def wf_state_def slides_ok_def one_timer_def)
  have f: "fwd s = move t" using assms(2,3) by (simp add: fwd_def t_def)
  have b: "timers (dispatchTransitionBefore t) = []" by (rule before_cancels[OF t(3,4)])
  have "\<exists>s'. move t = Inr s' \<and> timers s' = []"
  proof (cases "cmax t = 1")
    case True
    show ?thesis using move_two_slides[OF t(1) True] b
      by (simp add: dispatchTransitionChange_def emit_def)
  next
    case False
    show ?thesis using move_step[OF t(1) False t(2)] b
      by (simp add: dispatchTransitionStart_def emit_def)
  qed
  then obtain s' where "move t = Inr s'" "timers s' = []" by blast
  then show ?thesis using f by (simp add: timeout_def)
qed

text \<open>The callback of a timer that fires while \<open>moving\<close> commits nothing.\<close>

lemma timeout_when_moving:
  "moving s \<Longrightarrow> timeout h s = Inr s \<or>
     timeout h s = Inr (s\<lparr>timers := filter (\<lambda>t. fst t \<noteq> h) (timers s)\<rparr>)"
  by (simp add: timeout_def Let_def)

text \<open>
  C8 fails in one clause. The claim says \<open>start()\<close> does nothing unless an interval is
  configured, and the header of the auto mover says of \<open>data-auto-interval\<close>: "delete to
  stop". But the getter \<open>interval\<close> answers 5000 when the attribute is absent, zero, negative
  or not a number, so the guard \<open>this.interval\<close> of \<open>start\<close> never fails: on a carousel
  without the attribute, \<open>start()\<close> schedules a timer of 5000 ms, and so does the constructor
  of \<open>CarouselAutoMove\<close>. The rest of the claim holds (the lemmas above): one pending timer
  at most in every state, \<open>start\<close> does nothing while \<open>moving\<close>, \<open>stop\<close> is idempotent, the
  timer's callback commits a step only when not \<open>moving\<close> (\<open>timeout_when_moving\<close>), and
  every \<open>before\<close> event cancels the pending timer.
\<close>

theorem start_without_interval:
  "autoInterval (resting 4 1 0) = None \<and>
   timers (start (resting 4 1 0)) = [(0, 5000)] \<and>
   autoSlideInterval (start (resting 4 1 0)) = Some 0 \<and>
   timers (CarouselAutoMove (resting 4 1 0)) = [(0, 5000)] \<and>
   timers (start ((resting 4 1 0)\<lparr>autoInterval := Some 0\<rparr>)) = [(0, 5000)]"
  by (simp add: resting_def CarouselAutoMove_def start_def stop_def interval_def Let_def)

section \<open>The constructed carousel is well-formed\<close>

lemma initLoop_range: "i \<le> m \<Longrightarrow> i \<le> initLoop i v m \<and> initLoop i v m \<le> m"
proof (induction i v m rule: initLoop.induct)
  case (1 i v m)
  show ?case
  proof (cases "i < v \<and> i < m")
    case True
    then have "initLoop i v m = initLoop (i + 1) v m" by (subst initLoop.simps) simp
    with 1 True show ?thesis by auto
  next
    case False
    then have "initLoop i v m = i" by (subst initLoop.simps) simp
    with 1 show ?thesis by simp
  qed
qed

text \<open>
  With at least two slides and a window of one slide up to all of them, the constructor of
  Carousel/index.js returns a well-formed carousel on slide 0 with nothing pending (and at
  rest, unless the element carries the class \<open>moving\<close>); attaching the auto mover keeps this.
\<close>

lemma Carousel_wf:
  assumes "2 \<le> length (el_slides el)"
    "1 \<le> (case data_visible el of None \<Rightarrow> 1 | Some v \<Rightarrow> v)"
    "(case data_visible el of None \<Rightarrow> 1 | Some v \<Rightarrow> v) \<le> int (length (el_slides el))"
  shows "\<exists>s. Carousel el = Inr s \<and> wf_state s \<and> cmax s = int (length (el_slides el)) - 1 \<and>
    cur s = 0 \<and> listeners s = [] \<and> frames s = [] \<and> moving s = class_moving el \<and>
    timers s = [] \<and> wf_state (CarouselAutoMove s) \<and> one_timer (CarouselAutoMove s)"
proof -
  define v where "v = (case data_visible el of None \<Rightarrow> 1 | Some v \<Rightarrow> v)"
  define m where "m = int (length (el_slides el)) - 1"
  define s0 where "s0 = (blank el)\<lparr>visible := v, cmax := m, prev := m, cur := 0,
      next := initLoop 1 v m\<rparr>"
  have m1: "1 \<le> m" using assms(1) by (simp add: m_def)
  have ne: "el_slides el \<noteq> []" using assms(1) by auto
  have i: "initSlides el ((blank el)\<lparr>visible := v\<rparr>) = Inr s0"
    using m1 ne by (simp add: initSlides_def Let_def slides_ok_def s0_def m_def)
  have n: "1 \<le> initLoop 1 v m" "initLoop 1 v m \<le> m" using initLoop_range[OF m1, of v] by simp_all
  have w0: "wf_state s0" "cmax s0 = m" "cur s0 = 0" "listeners s0 = []" "frames s0 = []"
    "moving s0 = class_moving el" "timers s0 = []" "visible s0 = v"
    using m1 n assms(2,3) ne
    by (simp_all add: s0_def wf_state_def slides_ok_def blank_def v_def m_def)
  define s where "s = (if int (length (el_slides el)) > v
      then initDuration el (initTimingFunction el (s0\<lparr>dir := Some DIRECTIONS_fwd\<rparr>)) else s0)"
  have c: "Carousel el = Inr s"
    using i w0(8) by (simp add: Carousel_def v_def[symmetric] s_def)
  have w: "wf_state s" "cmax s = m" "cur s = 0" "listeners s = []" "frames s = []"
    "moving s = class_moving el" "timers s = []"
    using w0 by (simp_all add: s_def initDuration_def initTimingFunction_def Let_def tiny
        wf_state_def slides_ok_def)
  have a: "wf_state (CarouselAutoMove s)"
    using w(1) by (simp add: CarouselAutoMove_def wf_state_def slides_ok_def start_fields)
  show ?thesis
    using c w a one_timer_attach[OF w(7)] by (simp add: m_def)
qed

lemma findIndex_range:
  "findIndex P xs = - 1 \<or> (0 \<le> findIndex P xs \<and> findIndex P xs < int (length xs))"
  by (induction xs) (auto simp: Let_def)

text \<open>
  The constructor of carousel.js returns anchors that are slides when the markup marks a
  \<open>prev\<close>, a \<open>cur\<close> and a \<open>next\<close> slide.
\<close>

lemma Carousel_c_anchors:
  assumes "\<exists>c \<in> set (el_slides el). ''prev'' \<in> set c" "\<exists>c \<in> set (el_slides el). ''cur'' \<in> set c"
    "\<exists>c \<in> set (el_slides el). ''next'' \<in> set c"
  shows "\<exists>s. Carousel_c el fn d = Inr s \<and> slides_ok s (prev s) \<and> slides_ok s (cur s) \<and>
    slides_ok s (next s) \<and> listeners s = [] \<and> frames s = []"
proof -
  have f: "(\<exists>x \<in> set xs. P x) \<Longrightarrow> findIndex P xs \<noteq> - 1" for P :: "string list \<Rightarrow> bool" and xs
  proof (induction xs)
    case Nil
    then show ?case by simp
  next
    case (Cons a xs)
    then show ?case using findIndex_range[of P xs] by (auto simp: Let_def)
  qed
  have r: "(\<exists>x \<in> set xs. P x) \<Longrightarrow> 0 \<le> findIndex P xs \<and> findIndex P xs \<le> int (length xs) - 1"
    for P :: "string list \<Rightarrow> bool" and xs
    using f[of xs P] findIndex_range[of P xs] by auto
  show ?thesis
    using r[OF assms(1)] r[OF assms(2)] r[OF assms(3)]
    by (simp add: Carousel_c_def initSlides_c_def Let_def slides_ok_def blank_def)
qed

end
